theory Spec2Isabelle
  imports Main
begin

section \<open>Common model of the C programs\<close>

text \<open>
  The two programs \<^verbatim>\<open>CheapestTour.c\<close> and \<^verbatim>\<open>HeuristicTour.c\<close> are embedded as HOL
  functions.  C arrays are lists and the matrix \<^verbatim>\<open>int **cities\<close> is a list of rows.  A value of
  C's 32-bit \<^verbatim>\<open>int\<close> is a HOL \<^typ>\<open>int\<close>.  Signed overflow is undefined behaviour in C;
  the compiled programs wrap round in two's complement, and so does the model: the
  result of every operation whose value can leave the range (the sums of distances and
  the product of \<^verbatim>\<open>factorial\<close>) is reduced by \<open>int32\<close> below.  City numbers and array
  indices, which the programs never make negative, are \<^typ>\<open>nat\<close>; the index
  \<^verbatim>\<open>j + d[j]\<close>, which adds a direction \<open>-1\<close> or \<open>1\<close>, is computed in \<^typ>\<open>int\<close> and
  checked against the array bounds.

  Memory returned by \<^verbatim>\<open>malloc\<close> holds no defined value: a cell of the result array is
  \<^term>\<open>None\<close> until the program writes it.  A read of an uninitialised local variable
  and an access outside an array are undefined behaviour; the model stops there with
  an error value.
\<close>

datatype error = OutOfBounds | UninitialisedRead

text \<open>
  The value that a 32-bit \<^verbatim>\<open>int\<close> holds after an operation with the exact result \<open>x\<close>:
  the number congruent to \<open>x\<close> modulo \<open>2\<^sup>3\<^sup>2\<close> between \<open>-2\<^sup>3\<^sup>1\<close> and \<open>2\<^sup>3\<^sup>1 - 1\<close>.
\<close>

definition int32 :: "int \<Rightarrow> int" where
  "int32 x = (x + 2147483648) mod 4294967296 - 2147483648"

text \<open>The values of a 32-bit \<^verbatim>\<open>int\<close>.\<close>

definition in_int32 :: "int \<Rightarrow> bool" where
  "in_int32 x \<longleftrightarrow> - 2147483648 \<le> x \<and> x < 2147483648"

text \<open>The struct \<^verbatim>\<open>result\<close> of both programs.\<close>

record result =
  cost :: int
  tour :: "int option list"
  tour_size :: nat

text \<open>
  A \<^verbatim>\<open>for\<close> loop whose index runs through a fixed list of values (the numbers from
  the lower to the upper bound, or the elements of a linked list); the body may stop
  the program with an error.
\<close>

fun for_loop :: "'a list \<Rightarrow> ('a \<Rightarrow> 's \<Rightarrow> error + 's) \<Rightarrow> 's \<Rightarrow> error + 's" where
  "for_loop [] body s = Inr s"
| "for_loop (j # js) body s =
     (case body j s of Inl e \<Rightarrow> Inl e | Inr s' \<Rightarrow> for_loop js body s')"

text \<open>The read \<^verbatim>\<open>cities[a][b]\<close>.\<close>

definition cell :: "int list list \<Rightarrow> nat \<Rightarrow> nat \<Rightarrow> error + int" where
  "cell m a b =
     (if a < length m \<and> b < length (m ! a) then Inr (m ! a ! b) else Inl OutOfBounds)"

section \<open>CheapestTour.c\<close>

abbreviation LEFT :: int where "LEFT \<equiv> -1"
abbreviation RIGHT :: int where "RIGHT \<equiv> 1"

text \<open>\<^verbatim>\<open>#define INFINITE 0\<close>\<close>

definition INFINITE :: int where
  "INFINITE = 0"

text \<open>
  \<^verbatim>\<open>factorial\<close>: the product of \<open>2, ..., n\<close> (1 when \<open>n < 2\<close>), where each
  \<^verbatim>\<open>result = result * i\<close> is a multiplication of 32-bit integers.
\<close>

definition factorial :: "int \<Rightarrow> int" where
  "factorial n = fold (\<lambda>i result. int32 (result * i)) [2..n] 1"

text \<open>
  The state of the enumeration loop of \<^verbatim>\<open>getOptimalTour\<close>: the arrays \<^verbatim>\<open>p\<close> and \<^verbatim>\<open>d\<close>,
  the result under construction, and the local variable \<^verbatim>\<open>largestMobileIndex\<close>, which
  is declared without a value and keeps its value from one iteration to the next.
\<close>

record perm_state =
  p :: "nat list"
  d :: "int list"
  res :: result
  largestMobileIndex :: "nat option"

text \<open>
  The cost of the current tour (lines 128 to 132): the sum of
  \<^verbatim>\<open>cities[p[j]][p[next_city]]\<close> over all positions \<open>j\<close>.
\<close>

definition tour_cost :: "nat \<Rightarrow> int list list \<Rightarrow> nat list \<Rightarrow> error + int" where
  "tour_cost nr_cities cities ps =
     for_loop [0..<nr_cities]
       (\<lambda>j c. let next_city = (if j < nr_cities - 1 then j + 1 else 0) in
          if j < length ps \<and> next_city < length ps then
            (case cell cities (ps ! j) (ps ! next_city) of
               Inl e \<Rightarrow> Inl e
             | Inr w \<Rightarrow> Inr (int32 (c + w)))
          else Inl OutOfBounds)
       0"

text \<open>
  ``New shortest tour?'' (lines 135 to 140): the result is overwritten when the cost is
  lower than the stored one or the stored one is \<^const>\<open>INFINITE\<close>.
\<close>

definition store_best :: "nat \<Rightarrow> int \<Rightarrow> nat list \<Rightarrow> result \<Rightarrow> result" where
  "store_best nr_cities c ps r =
     (if c < cost r \<or> cost r = INFINITE then
        r\<lparr>cost := c,
          tour := fold (\<lambda>j t. t[j := Some (int (ps ! j))]) [0..<nr_cities] (tour r)\<rparr>
      else r)"

text \<open>
  The search for the largest mobile integer (lines 143 to 152).  The loop state is the
  pair of \<^verbatim>\<open>largestMobile\<close> and \<^verbatim>\<open>largestMobileIndex\<close>.
\<close>

definition find_mobile_body ::
  "nat \<Rightarrow> nat list \<Rightarrow> int list \<Rightarrow> nat \<Rightarrow> nat \<times> nat option \<Rightarrow> error + nat \<times> nat option" where
  "find_mobile_body nr_cities ps ds j s =
     (if \<not> (j < length ps \<and> j < length ds) then Inl OutOfBounds
      else if \<not> (j = 1 \<and> ds ! j = LEFT) \<and> \<not> (j = nr_cities - 1 \<and> ds ! j = RIGHT) then
        (let t = int j + ds ! j in
         if t < 0 \<or> int (length ps) \<le> t then Inl OutOfBounds
         else if ps ! j > ps ! nat t \<and> ps ! j > fst s then Inr (ps ! j, Some j)
         else Inr s)
      else Inr s)"

definition find_mobile ::
  "nat \<Rightarrow> nat list \<Rightarrow> int list \<Rightarrow> nat option \<Rightarrow> error + nat \<times> nat option" where
  "find_mobile nr_cities ps ds lmi =
     for_loop [1..<nr_cities] (find_mobile_body nr_cities ps ds) (0, lmi)"

text \<open>
  The two swaps (lines 155 to 162), at \<^verbatim>\<open>largestMobileIndex\<close> and its neighbour in the
  direction stored there.
\<close>

definition swap_mobile ::
  "nat list \<Rightarrow> int list \<Rightarrow> nat option \<Rightarrow> error + nat list \<times> int list" where
  "swap_mobile ps ds lmi =
     (case lmi of
        None \<Rightarrow> Inl UninitialisedRead
      | Some l \<Rightarrow>
          if \<not> (l < length ps \<and> l < length ds) then Inl OutOfBounds
          else
            (let t = int l + ds ! l in
             if t < 0 \<or> int (length ps) \<le> t \<or> int (length ds) \<le> t then Inl OutOfBounds
             else
               (let k = nat t;
                    temp = ps ! l;
                    ps1 = ps[l := ps ! k];
                    ps2 = ps1[k := temp];
                    temp' = ds ! k;
                    ds1 = ds[k := ds ! l];
                    ds2 = ds1[l := temp']
                in Inr (ps2, ds2))))"

text \<open>Lines 165 to 169: every integer larger than the mobile one turns round.\<close>

definition flip_directions :: "nat \<Rightarrow> nat list \<Rightarrow> nat \<Rightarrow> int list \<Rightarrow> int list" where
  "flip_directions nr_cities ps largestMobile ds =
     fold (\<lambda>j ds'. if ps ! j > largestMobile
                    then ds'[j := (if ds' ! j = LEFT then RIGHT else LEFT)] else ds')
       [1..<nr_cities] ds"

text \<open>One iteration of the enumeration loop (lines 126 to 170).\<close>

definition perm_iteration ::
  "nat \<Rightarrow> int list list \<Rightarrow> perm_state \<Rightarrow> error + perm_state" where
  "perm_iteration nr_cities cities s =
     (case tour_cost nr_cities cities (p s) of
        Inl e \<Rightarrow> Inl e
      | Inr c \<Rightarrow>
          (let r = store_best nr_cities c (p s) (res s) in
           case find_mobile nr_cities (p s) (d s) (largestMobileIndex s) of
             Inl e \<Rightarrow> Inl e
           | Inr (largestMobile, lmi) \<Rightarrow>
               (case swap_mobile (p s) (d s) lmi of
                  Inl e \<Rightarrow> Inl e
                | Inr (ps, ds) \<Rightarrow>
                    Inr \<lparr>p = ps,
                         d = flip_directions nr_cities ps largestMobile ds,
                         res = r,
                         largestMobileIndex = lmi\<rparr>)))"

definition init_state :: "nat \<Rightarrow> perm_state" where
  "init_state nr_cities =
     \<lparr>p = [0..<nr_cities],
      d = replicate nr_cities LEFT,
      res = \<lparr>cost = INFINITE, tour = replicate (nr_cities + 1) None,
             tour_size = nr_cities + 1\<rparr>,
      largestMobileIndex = None\<rparr>"

text \<open>
  \<^verbatim>\<open>nr_perm = factorial(nr_cities-1) / 2\<close>, as the number of times the loop
  \<^verbatim>\<open>for (i=0; i<nr_perm; i++)\<close> runs.  Where the product has wrapped round to a negative
  number, C's quotient (rounded towards zero) and \<open>div\<close> (rounded down) are both at most
  zero, and the loop does not run.
\<close>

definition nr_perm :: "nat \<Rightarrow> nat" where
  "nr_perm nr_cities = nat (factorial (int nr_cities - 1) div 2)"

text \<open>
  \<^verbatim>\<open>getOptimalTour\<close>: the enumeration loop, then the closing assignment
  \<^verbatim>\<open>res.tour[res.tour_size-1] = res.tour[0]\<close>, which copies the cell whatever it holds.
\<close>

definition enumerate :: "nat \<Rightarrow> int list list \<Rightarrow> nat \<Rightarrow> perm_state \<Rightarrow> error + perm_state" where
  "enumerate nr_cities cities k s =
     for_loop [0..<k] (\<lambda>i. perm_iteration nr_cities cities) s"

definition getOptimalTour :: "nat \<Rightarrow> int list list \<Rightarrow> error + result" where
  "getOptimalTour nr_cities cities =
     (case enumerate nr_cities cities (nr_perm nr_cities) (init_state nr_cities) of
        Inl e \<Rightarrow> Inl e
      | Inr s \<Rightarrow>
          (let r = res s in
           Inr (r\<lparr>tour := (tour r)[tour_size r - 1 := tour r ! 0]\<rparr>)))"

section \<open>HeuristicTour.c\<close>

abbreviation UNVISITED :: int where "UNVISITED \<equiv> 0"
abbreviation VISITED :: int where "VISITED \<equiv> 1"
abbreviation UNCONNECTED :: int where "UNCONNECTED \<equiv> 0"
abbreviation CONNECTED :: int where "CONNECTED \<equiv> 1"

subsection \<open>Prim's algorithm (lines 182 to 235)\<close>

text \<open>
  The struct \<^verbatim>\<open>edge\<close>.  It is declared inside the loop without a value: the two cities
  are \<^term>\<open>None\<close> until the scan assigns them.
\<close>

record edge =
  city1 :: "nat option"
  city2 :: "nat option"
  weight :: int

text \<open>
  The list from \<^verbatim>\<open>v_head\<close> to \<^verbatim>\<open>v_tail\<close> is the list of the cities in the tree, in the
  order in which they were added.  Lines 209 to 212 search it for \<open>j\<close>.
\<close>

definition found_in :: "nat list \<Rightarrow> nat \<Rightarrow> bool" where
  "found_in vs j = fold (\<lambda>c found. if c = j then True else found) vs False"

text \<open>
  The body of the loop over \<open>j\<close> (lines 205 to 223).  Its state is \<^verbatim>\<open>v_new->city\<close>
  and \<^verbatim>\<open>e\<close>.
\<close>

definition prim_body ::
  "int list list \<Rightarrow> nat list \<Rightarrow> nat \<Rightarrow> nat \<Rightarrow> nat option \<times> edge \<Rightarrow> error + nat option \<times> edge" where
  "prim_body cities vs c1 j s =
     (case cell cities c1 j of
        Inl e \<Rightarrow> Inl e
      | Inr w \<Rightarrow>
          if w = INFINITE then Inr s
          else if \<not> found_in vs j \<and> (weight (snd s) = INFINITE \<or> w < weight (snd s))
          then Inr (Some j, \<lparr>city1 = Some c1, city2 = Some j, weight = w\<rparr>)
          else Inr s)"

text \<open>The two nested loops over the tree cities and over all cities \<open>j\<close> (lines 200 to 225).\<close>

definition prim_scan ::
  "nat \<Rightarrow> int list list \<Rightarrow> nat list \<Rightarrow> error + nat option \<times> edge" where
  "prim_scan nr_cities cities vs =
     for_loop vs (\<lambda>c1. for_loop [0..<nr_cities] (prim_body cities vs c1))
       (None, \<lparr>city1 = None, city2 = None, weight = INFINITE\<rparr>)"

text \<open>The write \<^verbatim>\<open>mst[a][b] = CONNECTED\<close>.\<close>

definition connect :: "int list list \<Rightarrow> nat \<Rightarrow> nat \<Rightarrow> error + int list list" where
  "connect mst a b =
     (if a < length mst \<and> b < length (mst ! a)
      then Inr (mst[a := (mst ! a)[b := CONNECTED]])
      else Inl OutOfBounds)"

text \<open>
  One iteration of the loop over the remaining vertices (lines 191 to 235): the scan,
  then the new city is appended to the list and the edge is entered into \<^verbatim>\<open>mst\<close> in
  both directions.  When the scan has found no edge, the cities of \<^verbatim>\<open>e\<close> are read
  without ever having been written.
\<close>

definition prim_iteration ::
  "nat \<Rightarrow> int list list \<Rightarrow> nat list \<times> int list list \<Rightarrow> error + nat list \<times> int list list" where
  "prim_iteration nr_cities cities s =
     (case prim_scan nr_cities cities (fst s) of
        Inl e \<Rightarrow> Inl e
      | Inr (v_new, e) \<Rightarrow>
          (case (v_new, city1 e, city2 e) of
             (Some c, Some a, Some b) \<Rightarrow>
               (case connect (snd s) a b of
                  Inl e \<Rightarrow> Inl e
                | Inr mst1 \<Rightarrow>
                    (case connect mst1 b a of
                       Inl e \<Rightarrow> Inl e
                     | Inr mst2 \<Rightarrow> Inr (fst s @ [c], mst2)))
           | _ \<Rightarrow> Inl UninitialisedRead))"

definition prim :: "nat \<Rightarrow> int list list \<Rightarrow> error + nat list \<times> int list list" where
  "prim nr_cities cities =
     for_loop [1..<nr_cities] (\<lambda>i. prim_iteration nr_cities cities)
       ([0], replicate nr_cities (replicate nr_cities UNVISITED))"

subsection \<open>The depth-first search \<^verbatim>\<open>dfs\<close> (lines 93 to 140)\<close>

text \<open>
  The state is the array \<^verbatim>\<open>visited\<close> and the trail list from \<^verbatim>\<open>*head\<close> to \<^verbatim>\<open>*tail\<close>.
  \<open>dfs\<close> is the function, \<open>dfs_loop\<close> its \<^verbatim>\<open>for\<close> loop from index \<open>i\<close> on.
\<close>

type_synonym dfs_state = "int list \<times> nat list"

function (domintros)
  dfs :: "nat \<Rightarrow> nat \<Rightarrow> int list list \<Rightarrow> dfs_state \<Rightarrow> error + dfs_state" and
  dfs_loop :: "nat \<Rightarrow> nat \<Rightarrow> nat \<Rightarrow> int list list \<Rightarrow> dfs_state \<Rightarrow> error + dfs_state"
where
  "dfs node nr_cities g (visited, trail) =
     (if node < length visited
      then dfs_loop 0 node nr_cities g (visited[node := VISITED], trail @ [node])
      else Inl OutOfBounds)"
| "dfs_loop i node nr_cities g (visited, trail) =
     (if i < nr_cities then
        (case cell g node i of
           Inl e \<Rightarrow> Inl e
         | Inr c \<Rightarrow>
             if \<not> i < length visited then Inl OutOfBounds
             else if c = CONNECTED \<and> visited ! i = UNVISITED then
               (case dfs i nr_cities g (visited, trail) of
                  Inl e \<Rightarrow> Inl e
                | Inr (visited', trail') \<Rightarrow>
                    dfs_loop (i + 1) node nr_cities g (visited', trail' @ [node]))
             else dfs_loop (i + 1) node nr_cities g (visited, trail))
      else Inr (visited, trail))"
  by pat_completeness auto

text \<open>
  Termination: every call of \<open>dfs\<close> from the loop marks a city that was unvisited, and
  a call never unmarks one.
\<close>

definition unvisited :: "int list \<Rightarrow> nat" where
  "unvisited vs = length (filter (\<lambda>x. x = UNVISITED) vs)"

lemma unvisited_Cons [simp]:
  "unvisited (a # vs) = (if a = UNVISITED then Suc (unvisited vs) else unvisited vs)"
  by (simp add: unvisited_def)

lemma unvisited_Nil [simp]: "unvisited [] = 0"
  by (simp add: unvisited_def)

lemma unvisited_upd_le: "unvisited (vs[i := VISITED]) \<le> unvisited vs"
proof (induction vs arbitrary: i)
  case Nil
  then show ?case by simp
next
  case (Cons a vs)
  then show ?case
    by (cases i) (auto simp: le_SucI)
qed

lemma unvisited_upd_less:
  "i < length vs \<Longrightarrow> vs ! i = UNVISITED \<Longrightarrow> unvisited (vs[i := VISITED]) < unvisited vs"
proof (induction vs arbitrary: i)
  case Nil
  then show ?case by simp
next
  case (Cons a vs)
  then show ?case
    by (cases i) auto
qed

lemma dfs_unvisited_mono:
  "dfs_dfs_loop_dom (Inl (node, n, g, st)) \<Longrightarrow> dfs node n g st = Inr st' \<Longrightarrow>
     unvisited (fst st') \<le> unvisited ((fst st)[node := VISITED])"
  "dfs_dfs_loop_dom (Inr (i, node, n, g, st)) \<Longrightarrow> dfs_loop i node n g st = Inr st' \<Longrightarrow>
     unvisited (fst st') \<le> unvisited (fst st)"
proof (induct node n g st and i node n g st arbitrary: st' and st' rule: dfs_dfs_loop.pinduct)
  case (1 node nr_cities g visited trail)
  then show ?case by (auto simp: dfs.psimps split: if_splits)
next
  case (2 i node nr_cities g visited trail)
  show ?case
  proof (cases "i < nr_cities")
    case False
    with 2(1,5) show ?thesis by (simp add: dfs_loop.psimps)
  next
    case lt: True
    then obtain c where c: "cell g node i = Inr c" and il: "i < length visited"
      using 2(1,5) by (auto simp: dfs_loop.psimps split: sum.splits if_splits)
    show ?thesis
    proof (cases "c = CONNECTED \<and> visited ! i = UNVISITED")
      case True
      then obtain v' t' where r: "dfs i nr_cities g (visited, trail) = Inr (v', t')"
        and l: "dfs_loop (i + 1) node nr_cities g (v', t' @ [node]) = Inr st'"
        using 2(1,5) lt c il by (auto simp: dfs_loop.psimps split: sum.splits)
      have "unvisited v' \<le> unvisited (visited[i := VISITED])"
        using 2(2)[OF lt c _ True r] il by simp
      moreover have "unvisited (fst st') \<le> unvisited v'"
        using 2(3)[OF lt c _ True r _ l] il by simp
      ultimately show ?thesis using unvisited_upd_le[of visited i] by simp
    next
      case False
      then have "dfs_loop (i + 1) node nr_cities g (visited, trail) = Inr st'"
        using 2(1,5) lt c il by (auto simp: dfs_loop.psimps)
      from 2(4)[OF lt c _ False this] il show ?thesis by simp
    qed
  qed
qed

termination dfs
proof (relation
    "measures [\<lambda>x. case x of Inl (node, n, g, (vs, t)) \<Rightarrow> unvisited (vs[node := VISITED])
                            | Inr (i, node, n, g, (vs, t)) \<Rightarrow> unvisited vs,
               \<lambda>x. case x of Inl (node, n, g, st) \<Rightarrow> n + 1
                            | Inr (i, node, n, g, st) \<Rightarrow> n - i]", goal_cases)
  case 1
  then show ?case by simp
next
  case 2
  then show ?case by simp
next
  case 3
  then show ?case by (simp add: unvisited_upd_less)
next
  case 4
  then show ?case
    apply simp
    apply (drule dfs_unvisited_mono(1))
     apply assumption
    apply (auto dest: unvisited_upd_less)
    done
next
  case 5
  then show ?case by auto
qed

declare dfs_loop.simps [simp del]

subsection \<open>The short-cut loop (lines 246 to 265) and \<^verbatim>\<open>getHeuristicTour\<close>\<close>

text \<open>
  The state of the loop over the trail: the array \<^verbatim>\<open>visited\<close>, the result and the
  index \<open>i\<close>.  The test \<^verbatim>\<open>v->next == NULL\<close> holds at the last element of the trail.
\<close>

fun shortcut ::
  "int list list \<Rightarrow> nat list \<Rightarrow> int list \<times> result \<times> nat \<Rightarrow> error + int list \<times> result \<times> nat" where
  "shortcut cities [] s = Inr s"
| "shortcut cities (c # rest) (visited, r, i) =
     (if \<not> c < length visited then Inl OutOfBounds
      else if visited ! c = UNVISITED \<or> rest = [] then
        (if \<not> i < length (tour r) then Inl OutOfBounds
         else
           (let visited' = visited[c := VISITED];
                r1 = r\<lparr>tour := (tour r)[i := Some (int c)]\<rparr>
            in if i > 0 then
                 (case (tour r1 ! (i - 1), tour r1 ! i) of
                    (Some a, Some b) \<Rightarrow>
                      if a < 0 \<or> b < 0 then Inl OutOfBounds
                      else
                        (case cell cities (nat a) (nat b) of
                           Inl e \<Rightarrow> Inl e
                         | Inr w \<Rightarrow>
                             shortcut cities rest
                               (visited', r1\<lparr>cost := int32 (cost r1 + w)\<rparr>, i + 1))
                  | _ \<Rightarrow> Inl UninitialisedRead)
               else shortcut cities rest (visited', r1, i + 1)))
      else shortcut cities rest (visited, r, i))"

definition getHeuristicTour :: "nat \<Rightarrow> int list list \<Rightarrow> error + result" where
  "getHeuristicTour nr_cities cities =
     (case prim nr_cities cities of
        Inl e \<Rightarrow> Inl e
      | Inr (vs, mst) \<Rightarrow>
          (case dfs 0 nr_cities mst (replicate nr_cities UNVISITED, []) of
             Inl e \<Rightarrow> Inl e
           | Inr (visited, trail) \<Rightarrow>
               (case shortcut cities trail
                       (replicate nr_cities UNVISITED,
                        \<lparr>cost = INFINITE, tour = replicate (nr_cities + 1) None,
                         tour_size = nr_cities + 1\<rparr>, 0) of
                  Inl e \<Rightarrow> Inl e
                | Inr (visited', r, i) \<Rightarrow> Inr r)))"

section \<open>The permutations examined by \<^verbatim>\<open>getOptimalTour\<close>\<close>

text \<open>
  The contents of \<^verbatim>\<open>p\<close> at the start of each of the first \<open>k\<close> iterations of the
  enumeration loop, in order.
\<close>

fun examined :: "nat \<Rightarrow> int list list \<Rightarrow> nat \<Rightarrow> perm_state \<Rightarrow> nat list list" where
  "examined nr_cities cities 0 s = []"
| "examined nr_cities cities (Suc k) s =
     p s # (case perm_iteration nr_cities cities s of
              Inl e \<Rightarrow> []
            | Inr s' \<Rightarrow> examined nr_cities cities k s')"

section \<open>Runs on small inputs\<close>

text \<open>
  C1.  \<^verbatim>\<open>getOptimalTour\<close> is to return a tour of minimum cost among the Hamiltonian
  cycles through city 0.  With two cities at distance 5 the only cycle is 0-1-0, of
  cost 10.  The loop bound \<^verbatim>\<open>factorial(1) / 2\<close> is 0, so the loop body never runs: the
  returned cost is the initial 0 and no cell of the tour is ever written.
\<close>

theorem getOptimalTour_two_cities:
  "getOptimalTour 2 [[0, 5], [5, 0]]
     = Inr \<lparr>cost = 0, tour = [None, None, None], tour_size = 3\<rparr>
   \<and> tour_cost 2 [[0, 5], [5, 0]] [0, 1] = Inr 10"
  by code_simp

text \<open>
  C2.  The enumeration loop is to meet every Hamiltonian cycle with city 0 in front
  exactly once.  For two cities the loop examines no permutation at all, so the
  cycle 0-1-0 is not met once but never.
\<close>

theorem examined_two_cities:
  "nr_perm 2 = 0 \<and> examined 2 cities (nr_perm 2) (init_state 2) = []"
  by code_simp

text \<open>
  For four and five cities the loop examines 3 and 12 permutations; no two of them
  are equal or mirror images of each other.
\<close>

lemma examined_four_cities:
  "nr_perm 4 = 3"
  "examined 4 (replicate 4 (replicate 4 1)) (nr_perm 4) (init_state 4)
     = [[0, 1, 2, 3], [0, 1, 3, 2], [0, 3, 1, 2]]"
  by code_simp+

lemma examined_five_cities:
  "nr_perm 5 = 12"
  "examined 5 (replicate 5 (replicate 5 1)) (nr_perm 5) (init_state 5)
     = [[0, 1, 2, 3, 4], [0, 1, 2, 4, 3], [0, 1, 4, 2, 3], [0, 4, 1, 2, 3],
        [0, 4, 1, 3, 2], [0, 1, 4, 3, 2], [0, 1, 3, 4, 2], [0, 1, 3, 2, 4],
        [0, 3, 1, 2, 4], [0, 3, 1, 4, 2], [0, 3, 4, 1, 2], [0, 4, 3, 1, 2]]"
  by code_simp+

text \<open>
  C3.  The cost returned by \<^verbatim>\<open>getOptimalTour\<close> is to be at most the cost returned by
  \<^verbatim>\<open>getHeuristicTour\<close>.  In the symmetric matrix below the cycle 0-1-3-2-4-0 costs 0.
  It is the eighth permutation examined; its cost 0 is stored, and since 0 is also
  \<^const>\<open>INFINITE\<close> the next permutation overwrites it.  The exhaustive search returns
  cost 4, the heuristic search cost 3.
\<close>

theorem optimal_exceeds_heuristic:
  "getOptimalTour 5
     [[0, 0, 1, 2, 0], [0, 0, 2, 0, 1], [1, 2, 0, 0, 0], [2, 0, 0, 0, 1], [0, 1, 0, 1, 0]]
     = Inr \<lparr>cost = 4, tour = [Some 0, Some 3, Some 1, Some 2, Some 4, Some 0],
            tour_size = 6\<rparr>
   \<and> getHeuristicTour 5
     [[0, 0, 1, 2, 0], [0, 0, 2, 0, 1], [1, 2, 0, 0, 0], [2, 0, 0, 0, 1], [0, 1, 0, 1, 0]]
     = Inr \<lparr>cost = 3, tour = [Some 0, Some 2, Some 3, Some 4, Some 1, Some 0],
            tour_size = 6\<rparr>
   \<and> tour_cost 5
     [[0, 0, 1, 2, 0], [0, 0, 2, 0, 1], [1, 2, 0, 0, 0], [2, 0, 0, 0, 1], [0, 1, 0, 1, 0]]
     [0, 1, 3, 2, 4] = Inr 0"
  by code_simp

text \<open>
  C9.  For one city \<^verbatim>\<open>getOptimalTour\<close> is to return the tour 0, 0 with cost 0.  The
  loop bound \<^verbatim>\<open>factorial(0) / 2\<close> is 0: the cost is the initial 0, but city 0 is never
  written into the tour, and the closing assignment copies an unwritten cell.
\<close>

theorem getOptimalTour_one_city:
  "getOptimalTour 1 [[0]] = Inr \<lparr>cost = 0, tour = [None, None], tour_size = 2\<rparr>"
  by code_simp

section \<open>Arithmetic of 32-bit integers\<close>

definition big3 :: "int list list" where
  "big3 = [[2000000000, 2000000000, 2000000000],
           [2000000000, 2000000000, 2000000000],
           [2000000000, 2000000000, 2000000000]]"

lemma in_int32_int32: "in_int32 (int32 x)"
  by (simp add: int32_def in_int32_def)

lemma int32_id: "in_int32 x \<Longrightarrow> int32 x = x"
  by (simp add: int32_def in_int32_def)

lemma int32_int32 [simp]: "int32 (int32 x) = int32 x"
  by (rule int32_id[OF in_int32_int32])


text \<open>
  Sums and products that leave the range wrap round: three distances of 2000000000,
  and the factorial from 13 on, which makes the loop bound of \<^verbatim>\<open>getOptimalTour\<close> differ
  from \<open>(n - 1)! / 2\<close> from 14 cities on.
\<close>

lemma tour_cost_wraps: "tour_cost 3 big3 [0, 1, 2] = Inr 1705032704"
  by code_simp

lemma factorial_wraps:
  "factorial 12 = 479001600" "factorial 13 = 1932053504" "factorial 17 = - 288522240"
  by code_simp+

lemma nr_perm_wraps: "nr_perm 13 = 239500800" "nr_perm 14 = 966026752" "nr_perm 18 = 0"
  by (simp_all add: nr_perm_def factorial_wraps)

lemma getHeuristicTour_wraps:
  "getHeuristicTour 3 big3
   = Inr \<lparr>cost = 1705032704, tour = [Some 0, Some 1, Some 2, Some 0], tour_size = 4\<rparr>"
  by code_simp

section \<open>The stored minimum of \<^verbatim>\<open>getOptimalTour\<close>\<close>

definition example4 :: "int list list" where
  "example4 = [[0, 10, 15, 20], [10, 0, 35, 25], [15, 35, 0, 30], [20, 25, 30, 0]]"

definition example_zero :: "int list list" where
  "example_zero = [[0, 0, 1, 0], [0, 0, 0, 1], [1, 0, 0, 0], [0, 1, 0, 0]]"

lemma for_loop_length_cong:
  "length xs = length ys \<Longrightarrow> for_loop xs (\<lambda>i. f) s = for_loop ys (\<lambda>i. f) s"
proof (induction xs arbitrary: ys s)
  case Nil
  then show ?case by simp
next
  case (Cons x xs)
  then obtain y ys' where ys: "ys = y # ys'" and l: "length xs = length ys'"
    by (cases ys) auto
  show ?case unfolding ys using Cons.IH[OF l] by (simp split: sum.splits)
qed

lemma enumerate_0 [simp]: "enumerate n c 0 s = Inr s"
  by (simp add: enumerate_def)

lemma enumerate_Suc:
  "enumerate n c (Suc k) s =
     (case perm_iteration n c s of Inl e \<Rightarrow> Inl e | Inr s' \<Rightarrow> enumerate n c k s')"
proof -
  have a: "[0..<Suc k] = 0 # [Suc 0..<Suc k]"
    by (simp only: upt_conv_Cons zero_less_Suc)
  have b: "for_loop [Suc 0..<Suc k] (\<lambda>i. perm_iteration n c) s'
           = for_loop [0..<k] (\<lambda>i. perm_iteration n c) s'" for s'
    by (rule for_loop_length_cong) simp
  show ?thesis
    unfolding enumerate_def a for_loop.simps b by (rule refl)
qed

text \<open>The result after the permutations of a list have been offered to it in order.\<close>

fun track :: "nat \<Rightarrow> int list list \<Rightarrow> nat list list \<Rightarrow> result \<Rightarrow> result" where
  "track n c [] r = r"
| "track n c (ps # pss) r =
     (case tour_cost n c ps of
        Inl e \<Rightarrow> track n c pss r
      | Inr w \<Rightarrow> track n c pss (store_best n w ps r))"

lemma perm_iteration_res:
  assumes "perm_iteration n c s = Inr s'"
  shows "\<exists>w. tour_cost n c (p s) = Inr w \<and> res s' = store_best n w (p s) (res s)"
    and "length (p s') = length (p s)"
  using assms
  by (auto simp: perm_iteration_def swap_mobile_def Let_def
      split: sum.splits prod.splits option.splits if_splits)

lemma enumerate_track:
  "enumerate n c k s = Inr s' \<Longrightarrow> res s' = track n c (examined n c k s) (res s)"
proof (induction k arbitrary: s)
  case 0
  then show ?case by simp
next
  case (Suc k)
  then obtain s1 where s1: "perm_iteration n c s = Inr s1" and e: "enumerate n c k s1 = Inr s'"
    by (auto simp: enumerate_Suc split: sum.splits)
  from perm_iteration_res(1)[OF s1] obtain w where
    w: "tour_cost n c (p s) = Inr w" "res s1 = store_best n w (p s) (res s)" by blast
  show ?case using Suc.IH[OF e] s1 w by simp
qed

lemma examined_length:
  "ps \<in> set (examined n c k s) \<Longrightarrow> length (p s) = n \<Longrightarrow> length ps = n"
proof (induction k arbitrary: s)
  case 0
  then show ?case by simp
next
  case (Suc k)
  show ?case
  proof (cases "perm_iteration n c s")
    case (Inl e)
    with Suc.prems show ?thesis by simp
  next
    case (Inr s1)
    have "length (p s1) = n"
      using perm_iteration_res(2)[OF Inr] Suc.prems(2) by simp
    with Suc.IH[of s1] Suc.prems Inr show ?thesis by auto
  qed
qed

lemma track_append:
  "track n c (pss @ [ps]) r =
     (case tour_cost n c ps of Inl e \<Rightarrow> track n c pss r
      | Inr w \<Rightarrow> store_best n w ps (track n c pss r))"
  by (induction pss arbitrary: r) (auto split: sum.splits)

lemma fold_write_tour_take:
  "m \<le> length ps \<Longrightarrow> m \<le> length t \<Longrightarrow>
   fold (\<lambda>j t. t[j := Some (int (ps ! j))]) [0..<m] t
     = map (\<lambda>c. Some (int c)) (take m ps) @ drop m t"
proof (induction m)
  case 0
  then show ?case by simp
next
  case (Suc m)
  then have m: "m < length ps" "m < length t" by simp_all
  have "(map (\<lambda>c. Some (int c)) (take m ps) @ drop m t)[m := Some (int (ps ! m))]
        = map (\<lambda>c. Some (int c)) (take (Suc m) ps) @ drop (Suc m) t"
    using m by (simp add: take_Suc_conv_app_nth list_update_append
        Cons_nth_drop_Suc[symmetric])
  with Suc.IH m show ?case by simp
qed

lemma store_best_tour:
  assumes "length ps = n" "length (tour r) = Suc n"
  shows "store_best n w ps r = r \<or>
         ((w < cost r \<or> cost r = INFINITE) \<and>
          store_best n w ps r = r\<lparr>cost := w, tour := map (\<lambda>c. Some (int c)) ps @ [tour r ! n]\<rparr>)"
proof -
  have "drop n (tour r) = [tour r ! n]"
    using assms(2) by (metis Cons_nth_drop_Suc drop_all le_refl lessI)
  then show ?thesis
    using fold_write_tour_take[of n ps "tour r"] assms
    by (simp add: store_best_def)
qed

text \<open>What is stored when a permutation is accepted.\<close>

definition stored :: "nat list \<Rightarrow> int option list" where
  "stored ps = map (\<lambda>c. Some (int c)) ps"

lemma track_first_min:
  assumes "pss \<noteq> []"
    and "\<forall>ps\<in>set pss. length ps = n \<and> (\<exists>w. tour_cost n c ps = Inr w \<and> 0 < w)"
    and "cost r0 = INFINITE" "length (tour r0) = Suc n"
  shows "\<exists>k<length pss.
           tour_cost n c (pss ! k) = Inr (cost (track n c pss r0)) \<and>
           take n (tour (track n c pss r0)) = stored (pss ! k) \<and>
           length (tour (track n c pss r0)) = Suc n \<and>
           (\<forall>j<k. \<exists>w. tour_cost n c (pss ! j) = Inr w \<and> cost (track n c pss r0) < w) \<and>
           (\<forall>j<length pss. \<exists>w. tour_cost n c (pss ! j) = Inr w \<and> cost (track n c pss r0) \<le> w)"
  using assms(1,2)
proof (induction pss rule: rev_induct)
  case Nil
  then show ?case by simp
next
  case (snoc ps pss)
  from snoc.prems(2) obtain w where w: "tour_cost n c ps = Inr w" "0 < w" and lps: "length ps = n"
    by auto
  show ?case
  proof (cases "pss = []")
    case True
    have "store_best n w ps r0 = r0\<lparr>cost := w, tour := stored ps @ [tour r0 ! n]\<rparr>"
      using fold_write_tour_take[of n ps "tour r0"] assms(3,4) lps
      by (simp add: store_best_def stored_def Cons_nth_drop_Suc[symmetric])
    then show ?thesis using True w lps by (simp add: stored_def)
  next
    case False
    let ?r = "track n c pss r0"
    from snoc.IH[OF False] snoc.prems(2) obtain k where k: "k < length pss"
      "tour_cost n c (pss ! k) = Inr (cost ?r)"
      "take n (tour ?r) = stored (pss ! k)"
      "length (tour ?r) = Suc n"
      "\<forall>j<k. \<exists>w. tour_cost n c (pss ! j) = Inr w \<and> cost ?r < w"
      "\<forall>j<length pss. \<exists>w. tour_cost n c (pss ! j) = Inr w \<and> cost ?r \<le> w"
      by auto
    have pos: "0 < cost ?r"
      using snoc.prems(2) k(1,2) by (metis Inr_inject UnCI nth_mem set_append)
    have t: "track n c (pss @ [ps]) r0 = store_best n w ps ?r"
      using w by (simp add: track_append)
    show ?thesis
    proof (cases "w < cost ?r")
      case True
      then have sb: "store_best n w ps ?r = ?r\<lparr>cost := w, tour := stored ps @ [tour ?r ! n]\<rparr>"
        using fold_write_tour_take[of n ps "tour ?r"] k(4) lps
        by (simp add: store_best_def stored_def Cons_nth_drop_Suc[symmetric])
      have "\<forall>j<length pss. \<exists>w'. tour_cost n c (pss ! j) = Inr w' \<and> w < w'"
        using k(6) True by fastforce
      then show ?thesis
        unfolding t sb using w lps
        by (intro exI[of _ "length pss"]) (auto simp: nth_append less_Suc_eq stored_def)
    next
      case False
      then have sb: "store_best n w ps ?r = ?r"
        using pos by (simp add: store_best_def INFINITE_def)
      show ?thesis
        unfolding t sb using k w False
        by (intro exI[of _ k]) (auto simp: nth_append less_Suc_eq)
    qed
  qed
qed
lemma track_tour_size [simp]: "tour_size (track n c pss r) = tour_size r"
  by (induction pss arbitrary: r) (auto simp: store_best_def split: sum.splits)

lemma nr_perm_0 [simp]: "nr_perm 0 = 0"
  by code_simp


lemma store_best_replaces:
  "store_best n w ps r \<noteq> r \<Longrightarrow> w < cost r \<or> cost r = INFINITE"
  by (auto simp: store_best_def split: if_splits)

text \<open>
  C8.  A permutation is to replace the stored tour only when its cost is strictly
  lower than the stored cost, and of several permutations of minimal cost the first
  examined is to be returned, as the comment \<^verbatim>\<open>/* new shortest tour? */\<close> says.  In the
  matrix \<^const>\<open>example_zero\<close> the first permutation examined costs 0 and is stored.
  The second costs 2; it replaces the stored tour all the same, because the stored
  cost 0 is also \<^const>\<open>INFINITE\<close>, and it is the one returned, although a cheaper tour
  was examined and stored before it.
\<close>

theorem zero_cost_tour_overwritten:
  "examined 4 example_zero (nr_perm 4) (init_state 4) = [[0, 1, 2, 3], [0, 1, 3, 2], [0, 3, 1, 2]]
   \<and> tour_cost 4 example_zero [0, 1, 2, 3] = Inr 0
   \<and> tour_cost 4 example_zero [0, 1, 3, 2] = Inr 2
   \<and> tour_cost 4 example_zero [0, 3, 1, 2] = Inr 2
   \<and> store_best 4 2 [0, 1, 3, 2]
         \<lparr>cost = 0, tour = [Some 0, Some 1, Some 2, Some 3, None], tour_size = 5\<rparr>
       = \<lparr>cost = 2, tour = [Some 0, Some 1, Some 3, Some 2, None], tour_size = 5\<rparr>
   \<and> getOptimalTour 4 example_zero
       = Inr \<lparr>cost = 2, tour = [Some 0, Some 1, Some 3, Some 2, Some 0], tour_size = 5\<rparr>"
  by code_simp

text \<open>
  The stored cost 0 is mistaken for \<^const>\<open>INFINITE\<close> only when a permutation costs 0.
  When at least one permutation is examined and every one examined has a strictly
  positive cost, the tour returned is the first permutation examined whose cost is
  minimal: every permutation examined before it costs strictly more, and none costs
  less.
\<close>

lemma first_minimum_returned:
  assumes "getOptimalTour n cities = Inr r"
    and "examined n cities (nr_perm n) (init_state n) = pss"
    and "pss \<noteq> []"
    and "\<forall>ps\<in>set pss. \<exists>w. tour_cost n cities ps = Inr w \<and> 0 < w"
  shows "\<exists>k<length pss.
           tour_cost n cities (pss ! k) = Inr (cost r) \<and>
           tour r = stored (pss ! k @ [pss ! k ! 0]) \<and>
           (\<forall>j<k. \<exists>w. tour_cost n cities (pss ! j) = Inr w \<and> cost r < w) \<and>
           (\<forall>j<length pss. \<exists>w. tour_cost n cities (pss ! j) = Inr w \<and> cost r \<le> w)"
proof -
  from assms(1) obtain s where
    s: "enumerate n cities (nr_perm n) (init_state n) = Inr s"
    and r: "r = (res s)\<lparr>tour := (tour (res s))[tour_size (res s) - 1 := tour (res s) ! 0]\<rparr>"
    by (auto simp: getOptimalTour_def Let_def split: sum.splits)
  let ?r0 = "res (init_state n)"
  have res: "res s = track n cities pss ?r0"
    using enumerate_track[OF s] assms(2) by simp
  have n0: "0 < n"
    using assms(2,3) by (cases n) auto
  have len: "\<forall>ps\<in>set pss. length ps = n"
    using examined_length[of _ n cities "nr_perm n" "init_state n"] assms(2)
    by (auto simp: init_state_def)
  from track_first_min[of pss n cities ?r0] assms(3,4) len
  obtain k where k: "k < length pss"
    "tour_cost n cities (pss ! k) = Inr (cost (res s))"
    "take n (tour (res s)) = stored (pss ! k)"
    "length (tour (res s)) = Suc n"
    "\<forall>j<k. \<exists>w. tour_cost n cities (pss ! j) = Inr w \<and> cost (res s) < w"
    "\<forall>j<length pss. \<exists>w. tour_cost n cities (pss ! j) = Inr w \<and> cost (res s) \<le> w"
    unfolding res by (auto simp: init_state_def)
  have ts: "tour_size (res s) = Suc n"
    unfolding res by (simp add: init_state_def)
  have lk: "length (pss ! k) = n"
    using len k(1) by simp
  have t0: "tour (res s) ! 0 = Some (int (pss ! k ! 0))"
    using k(3) n0 lk by (metis (no_types, lifting) nth_map nth_take stored_def)
  have "tour (res s) = take n (tour (res s)) @ [tour (res s) ! n]"
    using k(4) by (metis lessI take_Suc_conv_app_nth take_all order_refl)
  then have "(tour (res s))[n := tour (res s) ! 0] = stored (pss ! k) @ [Some (int (pss ! k ! 0))]"
    using k(3,4) lk t0
    by (metis length_map list_update_length stored_def)
  then have "tour r = stored (pss ! k @ [pss ! k ! 0])"
    unfolding r using ts by (simp add: stored_def)
  with k show ?thesis
    unfolding r by (intro exI[of _ k]) simp
qed


lemma first_minimum_returned_example:
  "getOptimalTour 4 example4
     = Inr \<lparr>cost = 80, tour = [Some 0, Some 1, Some 3, Some 2, Some 0], tour_size = 5\<rparr>
   \<and> examined 4 example4 (nr_perm 4) (init_state 4) = [[0, 1, 2, 3], [0, 1, 3, 2], [0, 3, 1, 2]]
   \<and> tour_cost 4 example4 [0, 1, 2, 3] = Inr 95
   \<and> tour_cost 4 example4 [0, 1, 3, 2] = Inr 80
   \<and> tour_cost 4 example4 [0, 3, 1, 2] = Inr 95
   \<and> (\<exists>k<length [[0, 1, 2, 3], [0, 1, 3, 2], [0, 3, 1, 2 :: nat]].
         tour_cost 4 example4 ([[0, 1, 2, 3], [0, 1, 3, 2], [0, 3, 1, 2]] ! k)
           = Inr (cost \<lparr>cost = 80, tour = [Some 0, Some 1, Some 3, Some 2, Some 0],
                         tour_size = 5\<rparr>) \<and>
         tour \<lparr>cost = 80, tour = [Some 0, Some 1, Some 3, Some 2, Some 0], tour_size = 5\<rparr>
           = stored ([[0, 1, 2, 3], [0, 1, 3, 2], [0, 3, 1, 2]] ! k
                     @ [[[0, 1, 2, 3], [0, 1, 3, 2], [0, 3, 1, 2]] ! k ! 0]) \<and>
         (\<forall>j<k. \<exists>w. tour_cost 4 example4 ([[0, 1, 2, 3], [0, 1, 3, 2], [0, 3, 1, 2]] ! j) = Inr w
                   \<and> cost \<lparr>cost = 80, tour = [Some 0, Some 1, Some 3, Some 2, Some 0],
                            tour_size = 5\<rparr> < w) \<and>
         (\<forall>j<length [[0, 1, 2, 3], [0, 1, 3, 2], [0, 3, 1, 2 :: nat]].
             \<exists>w. tour_cost 4 example4 ([[0, 1, 2, 3], [0, 1, 3, 2], [0, 3, 1, 2]] ! j) = Inr w
                   \<and> cost \<lparr>cost = 80, tour = [Some 0, Some 1, Some 3, Some 2, Some 0],
                            tour_size = 5\<rparr> \<le> w))"
proof -
  let ?pss = "[[0, 1, 2, 3], [0, 1, 3, 2], [0, 3, 1, 2]] :: nat list list"
  have h1: "getOptimalTour 4 example4
     = Inr \<lparr>cost = 80, tour = [Some 0, Some 1, Some 3, Some 2, Some 0], tour_size = 5\<rparr>"
    by code_simp
  have h2: "examined 4 example4 (nr_perm 4) (init_state 4) = ?pss"
    by code_simp
  have h3: "?pss \<noteq> []" by simp
  have c1: "tour_cost 4 example4 [0, 1, 2, 3] = Inr 95" by code_simp
  have c2: "tour_cost 4 example4 [0, 1, 3, 2] = Inr 80" by code_simp
  have c3: "tour_cost 4 example4 [0, 3, 1, 2] = Inr 95" by code_simp
  have h4: "\<forall>ps\<in>set ?pss. \<exists>w. tour_cost 4 example4 ps = Inr w \<and> 0 < w"
    using c1 c2 c3 by simp
  show ?thesis
    by (intro conjI h1 h2 c1 c2 c3 first_minimum_returned[OF h1 h2 h3 h4])
qed


section \<open>Prim's algorithm builds a minimum spanning tree\<close>

text \<open>
  The graph of a distance matrix has an edge wherever an entry is not zero.  A set of
  edges spans the cities when every city can be reached from city 0.  Undirected
  edges are pairs \<open>(i, j)\<close> with \<open>i < j\<close>.
\<close>

definition example3 :: "int list list" where
  "example3 = [[0, 5, 1], [5, 0, 2], [1, 2, 0]]"

definition square :: "nat \<Rightarrow> int list list \<Rightarrow> bool" where
  "square n m \<longleftrightarrow> length m = n \<and> (\<forall>row\<in>set m. length row = n)"

definition links :: "nat \<Rightarrow> int list list \<Rightarrow> (nat \<times> nat) set" where
  "links n m = {(i, j). i < n \<and> j < n \<and> m ! i ! j \<noteq> 0}"

definition tree_links :: "nat \<Rightarrow> int list list \<Rightarrow> (nat \<times> nat) set" where
  "tree_links n m = {(i, j). i < n \<and> j < n \<and> m ! i ! j = CONNECTED}"

definition spans :: "nat \<Rightarrow> (nat \<times> nat) set \<Rightarrow> bool" where
  "spans n R \<longleftrightarrow> 0 < n \<and> (\<forall>v<n. (0, v) \<in> R\<^sup>*)"

definition mst_edges :: "nat \<Rightarrow> int list list \<Rightarrow> (nat \<times> nat) set" where
  "mst_edges n m = {(i, j). i < j \<and> j < n \<and> m ! i ! j = CONNECTED}"

lemma for_loop_append:
  "for_loop (xs @ ys) body s =
     (case for_loop xs body s of Inl e \<Rightarrow> Inl e | Inr s' \<Rightarrow> for_loop ys body s')"
  by (induction xs arbitrary: s) (auto split: sum.splits)

lemma for_loop_rule_aux:
  assumes step: "\<And>pre x post s. xs = pre @ x # post \<Longrightarrow> P pre s \<Longrightarrow>
                   \<exists>s'. body x s = Inr s' \<and> P (pre @ [x]) s'"
  shows "xs = pre @ rest \<Longrightarrow> P pre s \<Longrightarrow> \<exists>s'. for_loop rest body s = Inr s' \<and> P xs s'"
proof (induction rest arbitrary: pre s)
  case Nil
  then show ?case by simp
next
  case (Cons x rest)
  from step[OF Cons.prems] obtain s1 where s1: "body x s = Inr s1" "P (pre @ [x]) s1"
    by blast
  from Cons.IH[of "pre @ [x]" s1] Cons.prems(1) s1(2)
  obtain s' where "for_loop rest body s1 = Inr s'" "P xs s'" by auto
  with s1(1) show ?case by simp
qed

lemma for_loop_rule:
  assumes "P [] s0"
    and "\<And>pre x post s. xs = pre @ x # post \<Longrightarrow> P pre s \<Longrightarrow>
           \<exists>s'. body x s = Inr s' \<and> P (pre @ [x]) s'"
  shows "\<exists>s'. for_loop xs body s0 = Inr s' \<and> P xs s'"
  using for_loop_rule_aux[of xs P body "[]" xs s0] assms by simp

lemma for_loop_product:
  "for_loop xs (\<lambda>a. for_loop ys (f a)) s = for_loop (List.product xs ys) (\<lambda>(a, j). f a j) s"
proof (induction xs arbitrary: s)
  case Nil
  then show ?case by simp
next
  case (Cons x xs)
  have "for_loop (map (Pair x) ys) (\<lambda>(a, j). f a j) s = for_loop ys (f x) s" for s
    by (induction ys arbitrary: s) (auto split: sum.splits)
  then show ?case
    using Cons.IH by (simp add: for_loop_append split: sum.splits)
qed

lemma found_in_iff: "found_in vs j \<longleftrightarrow> j \<in> set vs"
proof -
  have "fold (\<lambda>c found. if c = j then True else found) vs b \<longleftrightarrow> b \<or> j \<in> set vs" for b
    by (induction vs arbitrary: b) auto
  then show ?thesis by (simp add: found_in_def)
qed

lemma cell_square:
  "square n m \<Longrightarrow> a < n \<Longrightarrow> b < n \<Longrightarrow> cell m a b = Inr (m ! a ! b)"
  by (simp add: cell_def square_def)

text \<open>A pair the scan may choose: an edge from a tree city to a city outside the tree.\<close>

definition candidate :: "int list list \<Rightarrow> nat list \<Rightarrow> nat \<times> nat \<Rightarrow> bool" where
  "candidate c vs e \<longleftrightarrow> c ! fst e ! snd e \<noteq> 0 \<and> snd e \<notin> set vs"

definition scan_inv ::
  "int list list \<Rightarrow> nat list \<Rightarrow> (nat \<times> nat) list \<Rightarrow> nat option \<times> edge \<Rightarrow> bool" where
  "scan_inv c vs seen s \<longleftrightarrow>
     (s = (None, \<lparr>city1 = None, city2 = None, weight = INFINITE\<rparr>) \<and>
      (\<forall>e\<in>set seen. \<not> candidate c vs e)) \<or>
     (\<exists>a j. (a, j) \<in> set seen \<and> candidate c vs (a, j) \<and>
        s = (Some j, \<lparr>city1 = Some a, city2 = Some j, weight = c ! a ! j\<rparr>) \<and>
        (\<forall>e\<in>set seen. candidate c vs e \<longrightarrow> c ! a ! j \<le> c ! fst e ! snd e))"

lemma prim_body_step:
  assumes sq: "square n c" and a: "a < n" and j: "j < n" and inv: "scan_inv c vs seen s"
  shows "\<exists>s'. prim_body c vs a j s = Inr s' \<and> scan_inv c vs (seen @ [(a, j)]) s'"
proof -
  have cell: "cell c a j = Inr (c ! a ! j)"
    using cell_square[OF sq a j] .
  from inv consider
    (none) "s = (None, \<lparr>city1 = None, city2 = None, weight = INFINITE\<rparr>)"
      "\<forall>e\<in>set seen. \<not> candidate c vs e"
    | (some) a0 j0 where "(a0, j0) \<in> set seen" "candidate c vs (a0, j0)"
      "s = (Some j0, \<lparr>city1 = Some a0, city2 = Some j0, weight = c ! a0 ! j0\<rparr>)"
      "\<forall>e\<in>set seen. candidate c vs e \<longrightarrow> c ! a0 ! j0 \<le> c ! fst e ! snd e"
    unfolding scan_inv_def by blast
  then show ?thesis
  proof cases
    case none
    show ?thesis
    proof (cases "candidate c vs (a, j)")
      case True
      then have "prim_body c vs a j s
                 = Inr (Some j, \<lparr>city1 = Some a, city2 = Some j, weight = c ! a ! j\<rparr>)"
        using cell none(1) by (simp add: prim_body_def candidate_def found_in_iff INFINITE_def)
      moreover have "scan_inv c vs (seen @ [(a, j)])
                       (Some j, \<lparr>city1 = Some a, city2 = Some j, weight = c ! a ! j\<rparr>)"
        unfolding scan_inv_def using True none(2) by auto
      ultimately show ?thesis by simp
    next
      case False
      then have "prim_body c vs a j s = Inr s"
        using cell by (auto simp: prim_body_def candidate_def found_in_iff INFINITE_def)
      moreover have "scan_inv c vs (seen @ [(a, j)]) s"
        unfolding scan_inv_def using False none by auto
      ultimately show ?thesis by simp
    qed
  next
    case some
    have w0: "c ! a0 ! j0 \<noteq> 0"
      using some(2) by (simp add: candidate_def)
    show ?thesis
    proof (cases "candidate c vs (a, j) \<and> c ! a ! j < c ! a0 ! j0")
      case True
      then have "prim_body c vs a j s
                 = Inr (Some j, \<lparr>city1 = Some a, city2 = Some j, weight = c ! a ! j\<rparr>)"
        using cell some(3) by (simp add: prim_body_def candidate_def found_in_iff INFINITE_def)
      moreover have "scan_inv c vs (seen @ [(a, j)])
                       (Some j, \<lparr>city1 = Some a, city2 = Some j, weight = c ! a ! j\<rparr>)"
        unfolding scan_inv_def using True some(4) by (intro disjI2 exI[of _ a] exI[of _ j]) fastforce
      ultimately show ?thesis by simp
    next
      case False
      then have "prim_body c vs a j s = Inr s"
        using cell some(3) w0
        by (auto simp: prim_body_def candidate_def found_in_iff INFINITE_def)
      moreover have "scan_inv c vs (seen @ [(a, j)]) s"
        unfolding scan_inv_def using False some
        by (intro disjI2 exI[of _ a0] exI[of _ j0]) fastforce
      ultimately show ?thesis by simp
    qed
  qed
qed

lemma prim_scan_result:
  assumes sq: "square n c" and vs: "set vs \<subseteq> {0..<n}"
  shows "\<exists>s. prim_scan n c vs = Inr s \<and> scan_inv c vs (List.product vs [0..<n]) s"
proof -
  have "\<exists>s'. for_loop (List.product vs [0..<n]) (\<lambda>(a, j). prim_body c vs a j)
                (None, \<lparr>city1 = None, city2 = None, weight = INFINITE\<rparr>) = Inr s'
              \<and> scan_inv c vs (List.product vs [0..<n]) s'"
  proof (rule for_loop_rule)
    show "scan_inv c vs [] (None, \<lparr>city1 = None, city2 = None, weight = INFINITE\<rparr>)"
      by (simp add: scan_inv_def)
  next
    fix pre x post s
    assume xs: "List.product vs [0..<n] = pre @ x # post" and inv: "scan_inv c vs pre s"
    obtain a j where x: "x = (a, j)" by (cases x)
    have "x \<in> set (List.product vs [0..<n])" unfolding xs by simp
    then have "a < n" "j < n" using vs x by auto
    from prim_body_step[OF sq this inv] x
    show "\<exists>s'. (case x of (a, j) \<Rightarrow> prim_body c vs a j) s = Inr s' \<and> scan_inv c vs (pre @ [x]) s'"
      by simp
  qed
  then show ?thesis
    by (simp add: prim_scan_def for_loop_product)
qed

lemma crossing_exists:
  assumes "(u, v) \<in> R\<^sup>*" "u \<in> S" "v \<notin> S"
  shows "\<exists>a b. a \<in> S \<and> b \<notin> S \<and> (a, b) \<in> R"
  using assms by (induction rule: rtrancl_induct) blast+

lemma outside_exists:
  assumes "distinct vs" "set vs \<subseteq> {0..<n}" "length vs < n"
  shows "\<exists>v<n. v \<notin> set vs"
proof (rule ccontr)
  assume "\<not> (\<exists>v<n. v \<notin> set vs)"
  then have "{0..<n} \<subseteq> set vs" by auto
  then have "card {0..<n} \<le> card (set vs)" by (intro card_mono) auto
  with assms(1,3) show False by (simp add: distinct_card)
qed

lemma square_nth: "square n m \<longleftrightarrow> length m = n \<and> (\<forall>i<n. length (m ! i) = n)"
  by (auto simp: square_def all_set_conv_all_nth)

text \<open>The matrix after \<^verbatim>\<open>mst[a][b] = mst[b][a] = CONNECTED\<close>.\<close>

lemma connect_both:
  assumes sq: "square n mst" and a: "a < n" and b: "b < n"
  shows "\<exists>mst'. (case connect mst a b of Inl e \<Rightarrow> Inl e | Inr m1 \<Rightarrow> connect m1 b a) = Inr mst'
           \<and> square n mst'
           \<and> (\<forall>i<n. \<forall>j<n. mst' ! i ! j =
                 (if (i = a \<and> j = b) \<or> (i = b \<and> j = a) then CONNECTED else mst ! i ! j))"
proof -
  let ?m1 = "mst[a := (mst ! a)[b := CONNECTED]]"
  let ?m2 = "?m1[b := (?m1 ! b)[a := CONNECTED]]"
  have len: "length mst = n" "\<And>i. i < n \<Longrightarrow> length (mst ! i) = n"
    using sq by (auto simp: square_nth)
  have c1: "connect mst a b = Inr ?m1"
    using len a b by (simp add: connect_def)
  have sq1: "square n ?m1"
    using len a by (auto simp: square_nth nth_list_update)
  have len1: "length ?m1 = n" "\<And>i. i < n \<Longrightarrow> length (?m1 ! i) = n"
    using sq1 by (auto simp: square_nth)
  have c2: "connect ?m1 b a = Inr ?m2"
    using len1 a b by (simp add: connect_def)
  have sq2: "square n ?m2"
    using len1 b by (auto simp: square_nth nth_list_update)
  have "?m2 ! i ! j = (if (i = a \<and> j = b) \<or> (i = b \<and> j = a) then CONNECTED else mst ! i ! j)"
    if "i < n" "j < n" for i j
    using that len len1 a b by (auto simp: nth_list_update)
  with c1 c2 sq2 show ?thesis by simp
qed

lemma prim_iteration_step:
  assumes sq: "square n c" and sqm: "square n mst" and vs: "set vs \<subseteq> {0..<n}"
    and cross: "\<exists>a b. a \<in> set vs \<and> b \<notin> set vs \<and> (a, b) \<in> links n c"
  shows "\<exists>a b mst'. prim_iteration n c (vs, mst) = Inr (vs @ [b], mst')
           \<and> a \<in> set vs \<and> b \<notin> set vs \<and> b < n \<and> c ! a ! b \<noteq> 0
           \<and> (\<forall>a'\<in>set vs. \<forall>b'<n. b' \<notin> set vs \<and> c ! a' ! b' \<noteq> 0 \<longrightarrow> c ! a ! b \<le> c ! a' ! b')
           \<and> square n mst'
           \<and> (\<forall>i<n. \<forall>j<n. mst' ! i ! j =
                 (if (i = a \<and> j = b) \<or> (i = b \<and> j = a) then CONNECTED else mst ! i ! j))"
proof -
  from prim_scan_result[OF sq vs] obtain s where
    s: "prim_scan n c vs = Inr s" and inv: "scan_inv c vs (List.product vs [0..<n]) s"
    by blast
  from cross obtain a0 b0 where ab0: "a0 \<in> set vs" "b0 \<notin> set vs" "b0 < n" "c ! a0 ! b0 \<noteq> 0"
    by (auto simp: links_def)
  then have "(a0, b0) \<in> set (List.product vs [0..<n])" "candidate c vs (a0, b0)"
    by (auto simp: candidate_def)
  with inv obtain a b where ab: "(a, b) \<in> set (List.product vs [0..<n])" "candidate c vs (a, b)"
    "s = (Some b, \<lparr>city1 = Some a, city2 = Some b, weight = c ! a ! b\<rparr>)"
    "\<forall>e\<in>set (List.product vs [0..<n]). candidate c vs e \<longrightarrow> c ! a ! b \<le> c ! fst e ! snd e"
    unfolding scan_inv_def by blast
  have a: "a \<in> set vs" "a < n" and b: "b < n" "b \<notin> set vs" "c ! a ! b \<noteq> 0"
    using ab(1,2) vs by (auto simp: candidate_def)
  from connect_both[OF sqm a(2) b(1)] obtain mst' where
    m: "(case connect mst a b of Inl e \<Rightarrow> Inl e | Inr m1 \<Rightarrow> connect m1 b a) = Inr mst'"
    "square n mst'"
    "\<forall>i<n. \<forall>j<n. mst' ! i ! j =
        (if (i = a \<and> j = b) \<or> (i = b \<and> j = a) then CONNECTED else mst ! i ! j)"
    by blast
  have "prim_iteration n c (vs, mst) = Inr (vs @ [b], mst')"
    using s ab(3) m(1) by (auto simp: prim_iteration_def split: sum.splits)
  moreover have "\<forall>a'\<in>set vs. \<forall>b'<n. b' \<notin> set vs \<and> c ! a' ! b' \<noteq> 0 \<longrightarrow> c ! a ! b \<le> c ! a' ! b'"
  proof (intro ballI allI impI)
    fix a' b' assume "a' \<in> set vs" "b' < n" "b' \<notin> set vs \<and> c ! a' ! b' \<noteq> 0"
    then have "(a', b') \<in> set (List.product vs [0..<n])" "candidate c vs (a', b')"
      by (auto simp: candidate_def)
    with ab(4) show "c ! a ! b \<le> c ! a' ! b'" by fastforce
  qed
  ultimately show ?thesis
    using a b m(2,3) by blast
qed

definition prim_inv :: "nat \<Rightarrow> int list list \<Rightarrow> nat list \<times> int list list \<Rightarrow> bool" where
  "prim_inv n c s \<longleftrightarrow>
     (let vs = fst s; mst = snd s in
      distinct vs \<and> set vs \<subseteq> {0..<n} \<and> 0 \<in> set vs \<and> square n mst \<and>
      (\<forall>i<n. \<forall>j<n. mst ! i ! j = CONNECTED \<or> mst ! i ! j = UNCONNECTED) \<and>
      (\<forall>i<n. \<forall>j<n. mst ! i ! j = mst ! j ! i) \<and>
      (\<forall>i<n. \<forall>j<n. mst ! i ! j = CONNECTED \<longrightarrow>
          i \<in> set vs \<and> j \<in> set vs \<and> i \<noteq> j \<and> c ! i ! j \<noteq> 0) \<and>
      (\<forall>v\<in>set vs. (0, v) \<in> (tree_links n mst)\<^sup>*) \<and>
      card (mst_edges n mst) + 1 = length vs)"

lemma finite_mst_edges [simp]: "finite (mst_edges n m)"
proof -
  have "mst_edges n m \<subseteq> {0..<n} \<times> {0..<n}"
    by (auto simp: mst_edges_def)
  then show ?thesis by (rule finite_subset) simp
qed

lemma prim_inv_init:
  assumes "0 < n"
  shows "prim_inv n c ([0], replicate n (replicate n UNVISITED))"
proof -
  have "mst_edges n (replicate n (replicate n UNVISITED)) = {}"
    by (auto simp: mst_edges_def)
  then show ?thesis
    using assms by (auto simp: prim_inv_def square_def Let_def)
qed

text \<open>What one iteration does to the invariant, given the edge \<open>(a, b)\<close> it has entered.\<close>

lemma prim_inv_step:
  assumes inv: "prim_inv n c (vs, mst)"
    and ab: "a \<in> set vs" "b \<notin> set vs" "b < n" "c ! a ! b \<noteq> 0"
    and sym: "c ! b ! a \<noteq> 0"
    and sq': "square n mst'"
    and m': "\<forall>i<n. \<forall>j<n. mst' ! i ! j =
                 (if (i = a \<and> j = b) \<or> (i = b \<and> j = a) then CONNECTED else mst ! i ! j)"
  shows "prim_inv n c (vs @ [b], mst')"
    and "mst_edges n mst' = insert (min a b, max a b) (mst_edges n mst)"
    and "(min a b, max a b) \<notin> mst_edges n mst"
proof -
  from inv have vs: "distinct vs" "set vs \<subseteq> {0..<n}" "0 \<in> set vs"
    and old: "\<forall>i<n. \<forall>j<n. mst ! i ! j = CONNECTED \<or> mst ! i ! j = UNCONNECTED"
    "\<forall>i<n. \<forall>j<n. mst ! i ! j = mst ! j ! i"
    "\<forall>i<n. \<forall>j<n. mst ! i ! j = CONNECTED \<longrightarrow> i \<in> set vs \<and> j \<in> set vs \<and> i \<noteq> j \<and> c ! i ! j \<noteq> 0"
    "\<forall>v\<in>set vs. (0, v) \<in> (tree_links n mst)\<^sup>*"
    "card (mst_edges n mst) + 1 = length vs"
    by (auto simp: prim_inv_def Let_def)
  have a: "a < n" "a \<noteq> b" using ab vs by auto
  show notin: "(min a b, max a b) \<notin> mst_edges n mst"
    using old(3) ab(2,3) a by (auto simp: mst_edges_def min_def max_def)
  show edges: "mst_edges n mst' = insert (min a b, max a b) (mst_edges n mst)"
  proof -
    have "(i, j) \<in> mst_edges n mst' \<longleftrightarrow> (i, j) \<in> insert (min a b, max a b) (mst_edges n mst)" for i j
    proof (cases "i < j \<and> j < n")
      case True
      then have "mst' ! i ! j =
          (if (i = a \<and> j = b) \<or> (i = b \<and> j = a) then CONNECTED else mst ! i ! j)"
        using m' by simp
      then show ?thesis
        using True a ab(3) by (auto simp: mst_edges_def min_def max_def split: if_splits)
    next
      case False
      then show ?thesis
        using a ab(3) by (auto simp: mst_edges_def min_def max_def)
    qed
    then show ?thesis by auto
  qed
  have sub: "tree_links n mst \<subseteq> tree_links n mst'"
    using m' by (auto simp: tree_links_def)
  have reach_old: "(0, v) \<in> (tree_links n mst')\<^sup>*" if "v \<in> set vs" for v
    using old(4) that rtrancl_mono[OF sub] by blast
  have "(a, b) \<in> tree_links n mst'"
    using m' a ab(3) by (simp add: tree_links_def)
  then have reach_b: "(0, b) \<in> (tree_links n mst')\<^sup>*"
    using reach_old[OF ab(1)] by (rule rtrancl_into_rtrancl[rotated])
  have "card (mst_edges n mst') + 1 = length (vs @ [b])"
    using edges notin old(5) by simp
  moreover have "\<forall>i<n. \<forall>j<n. mst' ! i ! j = CONNECTED \<longrightarrow>
          i \<in> set (vs @ [b]) \<and> j \<in> set (vs @ [b]) \<and> i \<noteq> j \<and> c ! i ! j \<noteq> 0"
    using m' old(3) ab sym a by auto
  moreover have "\<forall>i<n. \<forall>j<n. mst' ! i ! j = mst' ! j ! i"
    using m' old(2) by auto
  moreover have "\<forall>i<n. \<forall>j<n. mst' ! i ! j = CONNECTED \<or> mst' ! i ! j = UNCONNECTED"
    using m' old(1) by auto
  moreover have "\<forall>v\<in>set (vs @ [b]). (0, v) \<in> (tree_links n mst')\<^sup>*"
    using reach_old reach_b by auto
  ultimately show "prim_inv n c (vs @ [b], mst')"
    using vs ab sq' by (auto simp: prim_inv_def Let_def)
qed

definition symmetric :: "nat \<Rightarrow> int list list \<Rightarrow> bool" where
  "symmetric n m \<longleftrightarrow> (\<forall>i<n. \<forall>j<n. m ! i ! j = m ! j ! i)"

definition graph_edges :: "nat \<Rightarrow> int list list \<Rightarrow> (nat \<times> nat) set" where
  "graph_edges n c = {(i, j). i < j \<and> j < n \<and> c ! i ! j \<noteq> 0}"

definition und :: "(nat \<times> nat) set \<Rightarrow> (nat \<times> nat) set" where
  "und K = K \<union> K\<inverse>"

definition total_weight :: "int list list \<Rightarrow> (nat \<times> nat) set \<Rightarrow> int" where
  "total_weight c K = (\<Sum>(i, j)\<in>K. c ! i ! j)"

lemma sym_und: "sym (und K)"
  by (auto simp: und_def sym_def)

lemma und_mono: "K \<subseteq> K' \<Longrightarrow> und K \<subseteq> und K'"
  by (auto simp: und_def)

lemma und_rtrancl_sym: "(u, v) \<in> (und K)\<^sup>* \<Longrightarrow> (v, u) \<in> (und K)\<^sup>*"
  using sym_rtrancl[OF sym_und] by (auto simp: sym_def)

lemma prim_inv_tree_links:
  assumes "prim_inv n c (vs, mst)"
  shows "tree_links n mst = und (mst_edges n mst)"
proof -
  from assms have s: "\<forall>i<n. \<forall>j<n. mst ! i ! j = mst ! j ! i"
    and d: "\<forall>i<n. \<forall>j<n. mst ! i ! j = CONNECTED \<longrightarrow> i \<noteq> j"
    by (auto simp: prim_inv_def Let_def)
  have "(i, j) \<in> tree_links n mst \<longleftrightarrow> (i, j) \<in> und (mst_edges n mst)" for i j
  proof (cases "i < n \<and> j < n")
    case True
    then have "mst ! i ! j = mst ! j ! i" "mst ! i ! j = CONNECTED \<longrightarrow> i \<noteq> j"
      using s d by auto
    with True show ?thesis
      by (auto simp: tree_links_def und_def mst_edges_def)
  next
    case False
    then show ?thesis
      by (auto simp: tree_links_def und_def mst_edges_def)
  qed
  then show ?thesis by auto
qed

text \<open>
  An edge leaving \<open>S\<close> on the way from \<open>u\<close> inside to \<open>v\<close> outside, after which the way
  stays outside.
\<close>

lemma last_crossing:
  assumes "(u, v) \<in> R\<^sup>*" "v \<notin> S"
  shows "(u \<in> S \<longrightarrow> (\<exists>x y. x \<in> S \<and> y \<notin> S \<and> (x, y) \<in> R \<and>
                          (y, v) \<in> {(p, q). (p, q) \<in> R \<and> p \<notin> S \<and> q \<notin> S}\<^sup>*))
       \<and> (u \<notin> S \<longrightarrow> (u, v) \<in> {(p, q). (p, q) \<in> R \<and> p \<notin> S \<and> q \<notin> S}\<^sup>* \<or>
                      (\<exists>x y. x \<in> S \<and> y \<notin> S \<and> (x, y) \<in> R \<and>
                          (y, v) \<in> {(p, q). (p, q) \<in> R \<and> p \<notin> S \<and> q \<notin> S}\<^sup>*))"
  using assms
proof (induction rule: converse_rtrancl_induct)
  case base
  then show ?case by simp
next
  case (step u z)
  let ?out = "{(p, q). (p, q) \<in> R \<and> p \<notin> S \<and> q \<notin> S}"
  let ?ex = "\<exists>x y. x \<in> S \<and> y \<notin> S \<and> (x, y) \<in> R \<and> (y, v) \<in> ?out\<^sup>*"
  from step.IH[OF step.prems] have ih: "z \<in> S \<longrightarrow> ?ex" "z \<notin> S \<longrightarrow> (z, v) \<in> ?out\<^sup>* \<or> ?ex"
    by blast+
  show ?case
  proof (cases "z \<in> S")
    case True
    with ih show ?thesis by blast
  next
    case zout: False
    show ?thesis
    proof (cases "u \<in> S")
      case True
      with zout ih(2) step.hyps(1) show ?thesis by blast
    next
      case False
      then have "(u, z) \<in> ?out" using zout step.hyps(1) by simp
      then have "(z, v) \<in> ?out\<^sup>* \<Longrightarrow> (u, v) \<in> ?out\<^sup>*"
        by (rule converse_rtrancl_into_rtrancl)
      with False zout ih(2) show ?thesis by blast
    qed
  qed
qed

lemma finite_graph_edges: "K \<subseteq> graph_edges n c \<Longrightarrow> finite K"
proof -
  have "graph_edges n c \<subseteq> {0..<n} \<times> {0..<n}"
    by (auto simp: graph_edges_def)
  then have "finite (graph_edges n c)" by (rule finite_subset) simp
  then show "K \<subseteq> graph_edges n c \<Longrightarrow> finite K" by (rule rev_finite_subset)
qed

lemma exchange:
  assumes K: "K \<subseteq> graph_edges n c" "spans n (und K)"
    and T: "T \<subseteq> K" "\<forall>(i, j)\<in>T. i \<in> S \<and> j \<in> S" "\<forall>v\<in>S. (0, v) \<in> (und T)\<^sup>*"
    and ab: "a \<in> S" "b \<notin> S" "a < n" "b < n" "c ! a ! b \<noteq> 0"
    and least: "\<forall>x\<in>S. \<forall>y<n. y \<notin> S \<and> c ! x ! y \<noteq> 0 \<longrightarrow> c ! a ! b \<le> c ! x ! y"
    and sym: "symmetric n c"
  shows "\<exists>K'. K' \<subseteq> graph_edges n c \<and> spans n (und K') \<and>
               insert (min a b, max a b) T \<subseteq> K' \<and> total_weight c K' \<le> total_weight c K"
proof -
  let ?e = "(min a b, max a b)"
  have anb: "a \<noteq> b" using ab by auto
  have ce: "c ! min a b ! max a b = c ! a ! b"
    using sym ab by (auto simp: symmetric_def min_def max_def)
  have e: "?e \<in> graph_edges n c"
    using ab anb ce by (auto simp: graph_edges_def)
  show ?thesis
  proof (cases "?e \<in> K")
    case True
    with K T(1) show ?thesis by (intro exI[of _ K]) auto
  next
    case eK: False
    let ?R = "und K"
    let ?out = "{(p, q). (p, q) \<in> ?R \<and> p \<notin> S \<and> q \<notin> S}"
    have "(0, a) \<in> ?R\<^sup>*" "(0, b) \<in> ?R\<^sup>*"
      using K(2) ab by (auto simp: spans_def)
    then have "(a, b) \<in> ?R\<^sup>*"
      using und_rtrancl_sym[of 0 a K] by (meson rtrancl_trans)
    from last_crossing[OF this ab(2)] ab(1) obtain x y where
      xy: "x \<in> S" "y \<notin> S" "(x, y) \<in> ?R" "(y, b) \<in> ?out\<^sup>*"
      by blast
    let ?f = "(min x y, max x y)"
    have xny: "x \<noteq> y" using xy by auto
    have fK: "?f \<in> K"
      using xy(3) K(1) by (auto simp: und_def graph_edges_def min_def max_def)
    then have f: "min x y < max x y" "max x y < n" "c ! min x y ! max x y \<noteq> 0"
      using K(1) by (auto simp: graph_edges_def)
    have xyn: "x < n" "y < n" using f xny by (auto simp: min_def max_def split: if_splits)
    have cf: "c ! min x y ! max x y = c ! x ! y"
      using sym xyn by (auto simp: symmetric_def min_def max_def)
    let ?K' = "insert ?e (K - {?f})"
    have fin: "finite K" using finite_graph_edges[OF K(1)] .
    have 1: "?K' \<subseteq> graph_edges n c" using K(1) e by auto
    have fT: "?f \<notin> T"
      using T(2) xy(1,2) by (auto simp: min_def max_def split: if_splits)
    have 3: "insert ?e T \<subseteq> ?K'" using T(1) fT by auto
    have "total_weight c ?K' = c ! a ! b + total_weight c (K - {?f})"
      using fin eK ce by (simp add: total_weight_def)
    moreover have "total_weight c K = c ! x ! y + total_weight c (K - {?f})"
      using fin fK cf by (simp add: total_weight_def sum.remove[of K ?f])
    moreover have "c ! a ! b \<le> c ! x ! y"
      using least xy(1,2) xyn(2) f(3) cf by auto
    ultimately have 4: "total_weight c ?K' \<le> total_weight c K" by simp
    have TK': "und T \<subseteq> und ?K'" using 3 by (intro und_mono) auto
    have "(0, x) \<in> (und T)\<^sup>*" "(0, a) \<in> (und T)\<^sup>*" using T(3) xy(1) ab(1) by auto
    then have "(x, a) \<in> (und T)\<^sup>*"
      using und_rtrancl_sym[of 0 x T] by (meson rtrancl_trans)
    then have xa: "(x, a) \<in> (und ?K')\<^sup>*"
      using rtrancl_mono[OF TK'] by blast
    have abK': "(a, b) \<in> und ?K'"
      by (auto simp: und_def min_def max_def)
    have "?out \<subseteq> und ?K'"
      using xy(1) by (auto simp: und_def min_def max_def split: if_splits)
    then have "(y, b) \<in> (und ?K')\<^sup>*"
      using xy(4) rtrancl_mono by blast
    then have "(b, y) \<in> (und ?K')\<^sup>*" by (rule und_rtrancl_sym)
    with xa abK' have xyK': "(x, y) \<in> (und ?K')\<^sup>*"
      by (meson rtrancl.rtrancl_into_rtrancl rtrancl_trans)
    then have yxK': "(y, x) \<in> (und ?K')\<^sup>*" by (rule und_rtrancl_sym)
    have "?R \<subseteq> (und ?K')\<^sup>*"
    proof
      fix p assume p: "p \<in> ?R"
      obtain u v where uv: "p = (u, v)" by (cases p)
      show "p \<in> (und ?K')\<^sup>*"
      proof (cases "(u, v) \<in> und ?K'")
        case True
        then show ?thesis using uv by auto
      next
        case False
        then have "(u, v) = ?f \<or> (v, u) = ?f"
          using p uv by (auto simp: und_def)
        moreover have "u \<noteq> v" using p uv K(1) by (auto simp: und_def graph_edges_def)
        ultimately have "(u, v) = (x, y) \<or> (u, v) = (y, x)"
          using p uv K(1) by (auto simp: min_def max_def und_def graph_edges_def split: if_splits)
        with xyK' yxK' uv show ?thesis by auto
      qed
    qed
    then have "?R\<^sup>* \<subseteq> (und ?K')\<^sup>*" by (rule rtrancl_subset_rtrancl)
    with K(2) have 2: "spans n (und ?K')" by (auto simp: spans_def)
    from 1 2 3 4 show ?thesis by blast
  qed
qed

text \<open>Every spanning set of edges can be turned into one that contains the tree so far and weighs no more.\<close>

definition extendable :: "nat \<Rightarrow> int list list \<Rightarrow> (nat \<times> nat) set \<Rightarrow> bool" where
  "extendable n c T \<longleftrightarrow>
     (\<forall>K. K \<subseteq> graph_edges n c \<and> spans n (und K) \<longrightarrow>
        (\<exists>K'. K' \<subseteq> graph_edges n c \<and> spans n (und K') \<and> T \<subseteq> K' \<and>
              total_weight c K' \<le> total_weight c K))"

lemma extendableD:
  assumes "extendable n c T" "K \<subseteq> graph_edges n c" "spans n (und K)"
  obtains K' where "K' \<subseteq> graph_edges n c" "spans n (und K')" "T \<subseteq> K'"
    "total_weight c K' \<le> total_weight c K"
proof -
  from assms(1) have "K \<subseteq> graph_edges n c \<and> spans n (und K) \<longrightarrow>
        (\<exists>K'. K' \<subseteq> graph_edges n c \<and> spans n (und K') \<and> T \<subseteq> K' \<and>
              total_weight c K' \<le> total_weight c K)"
    unfolding extendable_def by (rule spec)
  with assms(2,3) that show thesis by iprover
qed

lemma mst_edges_inside:
  assumes inside: "\<forall>i<n. \<forall>j<n. mst ! i ! j = CONNECTED \<longrightarrow> i \<in> set vs \<and> j \<in> set vs"
  shows "\<forall>(i, j)\<in>mst_edges n mst. i \<in> set vs \<and> j \<in> set vs"
proof -
  have "i \<in> set vs \<and> j \<in> set vs" if "(i, j) \<in> mst_edges n mst" for i j
  proof -
    from that have "i < n" "j < n" "mst ! i ! j = CONNECTED" by (auto simp: mst_edges_def)
    with inside show ?thesis by blast
  qed
  then show ?thesis by auto
qed

lemma prim_loop:
  assumes sq: "square n c" and sym: "symmetric n c" and conn: "spans n (links n c)"
  shows "\<exists>vs mst. prim n c = Inr (vs, mst) \<and> prim_inv n c (vs, mst) \<and> length vs = n \<and>
                   extendable n c (mst_edges n mst)"
proof -
  have n: "0 < n" using conn by (simp add: spans_def)
  let ?P = "\<lambda>pre s. prim_inv n c s \<and> length (fst s) = length pre + 1 \<and>
                     extendable n c (mst_edges n (snd s))"
  have "\<exists>s'. for_loop [1..<n] (\<lambda>i. prim_iteration n c)
               ([0], replicate n (replicate n UNVISITED)) = Inr s' \<and> ?P [1..<n] s'"
  proof (rule for_loop_rule)
    have "mst_edges n (replicate n (replicate n UNVISITED)) = {}"
      by (auto simp: mst_edges_def)
    then show "?P [] ([0], replicate n (replicate n UNVISITED))"
      using prim_inv_init[OF n] by (auto simp: extendable_def)
  next
    fix pre x post s
    assume xs: "[1..<n] = pre @ x # post" and P: "?P pre s"
    obtain vs mst where s: "s = (vs, mst)" by (cases s)
    from P s have inv: "prim_inv n c (vs, mst)" and len: "length vs = length pre + 1"
      and ext: "extendable n c (mst_edges n mst)" by auto
    from inv have vs: "distinct vs" "set vs \<subseteq> {0..<n}" "0 \<in> set vs" and sqm: "square n mst"
      and inside: "\<forall>i<n. \<forall>j<n. mst ! i ! j = CONNECTED \<longrightarrow> i \<in> set vs \<and> j \<in> set vs"
      and reach: "\<forall>v\<in>set vs. (0, v) \<in> (tree_links n mst)\<^sup>*"
      by (auto simp: prim_inv_def Let_def)
    have "length [1..<n] = length pre + 1 + length post" unfolding xs by simp
    then have "length vs < n" using len by simp
    from outside_exists[OF vs(1,2) this] obtain v where v: "v < n" "v \<notin> set vs" by blast
    then have "(0, v) \<in> (links n c)\<^sup>*" using conn by (simp add: spans_def)
    from crossing_exists[OF this vs(3) v(2)]
    have cross: "\<exists>a b. a \<in> set vs \<and> b \<notin> set vs \<and> (a, b) \<in> links n c" .
    from prim_iteration_step[OF sq sqm vs(2) cross] obtain a b mst' where
      it: "prim_iteration n c (vs, mst) = Inr (vs @ [b], mst')"
      and ab: "a \<in> set vs" "b \<notin> set vs" "b < n" "c ! a ! b \<noteq> 0"
      and least: "\<forall>a'\<in>set vs. \<forall>b'<n. b' \<notin> set vs \<and> c ! a' ! b' \<noteq> 0 \<longrightarrow> c ! a ! b \<le> c ! a' ! b'"
      and sq': "square n mst'"
      and m': "\<forall>i<n. \<forall>j<n. mst' ! i ! j =
                 (if (i = a \<and> j = b) \<or> (i = b \<and> j = a) then CONNECTED else mst ! i ! j)"
      by blast
    have an: "a < n" using ab(1) vs(2) by auto
    have ba: "c ! b ! a \<noteq> 0" using sym ab(3,4) an by (simp add: symmetric_def)
    note step = prim_inv_step[OF inv ab ba sq' m']
    have "extendable n c (mst_edges n mst')"
      unfolding extendable_def
    proof (intro allI impI)
      fix K assume K: "K \<subseteq> graph_edges n c \<and> spans n (und K)"
      then have "K \<subseteq> graph_edges n c" "spans n (und K)" by simp_all
      then obtain K1 where K1: "K1 \<subseteq> graph_edges n c"
        "spans n (und K1)" "mst_edges n mst \<subseteq> K1" "total_weight c K1 \<le> total_weight c K"
        by (rule extendableD[OF ext])
      have T2: "\<forall>(i, j)\<in>mst_edges n mst. i \<in> set vs \<and> j \<in> set vs"
        using inside by (rule mst_edges_inside)
      have T3: "\<forall>v\<in>set vs. (0, v) \<in> (und (mst_edges n mst))\<^sup>*"
        using reach prim_inv_tree_links[OF inv] by simp
      from exchange[OF K1(1,2) K1(3) T2 T3 ab(1,2) an ab(3,4) least sym]
      obtain K' where "K' \<subseteq> graph_edges n c \<and> spans n (und K') \<and>
        insert (min a b, max a b) (mst_edges n mst) \<subseteq> K' \<and>
        total_weight c K' \<le> total_weight c K1" by (rule exE)
      then have K': "K' \<subseteq> graph_edges n c" "spans n (und K')"
        "insert (min a b, max a b) (mst_edges n mst) \<subseteq> K'"
        "total_weight c K' \<le> total_weight c K1" by simp_all
      have "mst_edges n mst' \<subseteq> K'" using K'(3) step(2) by simp
      moreover have "total_weight c K' \<le> total_weight c K" using K'(4) K1(4) by simp
      ultimately
      show "\<exists>K'. K' \<subseteq> graph_edges n c \<and> spans n (und K') \<and> mst_edges n mst' \<subseteq> K' \<and>
                 total_weight c K' \<le> total_weight c K"
        using K'(1,2) by (intro exI[of _ K'] conjI)
    qed
    then have "?P (pre @ [x]) (vs @ [b], mst')"
      using step(1) len by simp
    with it s
    show "\<exists>s'. prim_iteration n c s = Inr s' \<and> ?P (pre @ [x]) s'" by blast
  qed
  then obtain s' where s': "prim n c = Inr s'" "?P [1..<n] s'"
    by (auto simp: prim_def)
  obtain vs mst where "s' = (vs, mst)" by (cases s')
  with s' n show ?thesis by auto
qed

lemma prim_all_cities:
  assumes "prim_inv n c (vs, mst)" "length vs = n"
  shows "set vs = {0..<n}"
proof -
  from assms have "distinct vs" "set vs \<subseteq> {0..<n}" by (auto simp: prim_inv_def Let_def)
  then show ?thesis
    using assms(2) by (metis card_atLeastLessThan card_subset_eq diff_zero distinct_card finite_atLeastLessThan)
qed

text \<open>
  C7.  For every symmetric \<open>n \<times> n\<close> matrix whose nonzero entries connect all \<open>n\<close> cities
  (every city can be reached from city 0), the loop of Prim's algorithm ends without
  error, and the matrix \<^verbatim>\<open>mst\<close> it leaves is symmetric, has exactly \<open>n - 1\<close> undirected
  edges (entries \<^verbatim>\<open>CONNECTED\<close> above the diagonal) and connects all \<open>n\<close> cities.
\<close>

theorem prim_spanning_tree:
  assumes "square n cities" and "symmetric n cities" and "spans n (links n cities)"
  shows "\<exists>vs mst. prim n cities = Inr (vs, mst) \<and> square n mst \<and> symmetric n mst \<and>
           card (mst_edges n mst) = n - 1 \<and> spans n (tree_links n mst)"
proof -
  from prim_loop[OF assms] obtain vs mst where
    p: "prim n cities = Inr (vs, mst)" "prim_inv n cities (vs, mst)" "length vs = n" by blast
  have n: "0 < n" using assms(3) by (simp add: spans_def)
  have all: "set vs = {0..<n}" using prim_all_cities[OF p(2,3)] .
  from p(2) have "square n mst" "symmetric n mst" "card (mst_edges n mst) + 1 = length vs"
    "\<forall>v\<in>set vs. (0, v) \<in> (tree_links n mst)\<^sup>*"
    by (auto simp: prim_inv_def Let_def symmetric_def)
  with p(1,3) all n show ?thesis
    by (auto simp: spans_def)
qed

lemma example3_square: "square 3 example3"
  by (simp add: square_def example3_def)

lemma example3_symmetric: "symmetric 3 example3"
  by (simp add: symmetric_def example3_def All_less_Suc numeral_3_eq_3)

lemma example3_spans: "spans 3 (links 3 example3)"
proof -
  have "(0, 1) \<in> links 3 example3" "(0, 2) \<in> links 3 example3"
    by (simp_all add: links_def example3_def)
  then have "(0, 1) \<in> (links 3 example3)\<^sup>*" "(0, 2) \<in> (links 3 example3)\<^sup>*"
    by blast+
  then show ?thesis
    by (simp add: spans_def All_less_Suc numeral_3_eq_3 numeral_2_eq_2)
qed

lemma example3_nonneg: "\<forall>i<3. \<forall>j<3. 0 \<le> example3 ! i ! j"
  by (simp add: example3_def All_less_Suc numeral_3_eq_3)

theorem prim_spanning_tree_witness:
  "square 3 example3 \<and> symmetric 3 example3 \<and> spans 3 (links 3 example3) \<and>
   prim 3 example3 = Inr ([0, 2, 1], [[0, 0, 1], [0, 0, 1], [1, 1, 0]]) \<and>
   (\<exists>vs mst. prim 3 example3 = Inr (vs, mst) \<and> square 3 mst \<and> symmetric 3 mst \<and>
      card (mst_edges 3 mst) = 3 - 1 \<and> spans 3 (tree_links 3 mst))"
proof -
  have "prim 3 example3 = Inr ([0, 2, 1], [[0, 0, 1], [0, 0, 1], [1, 1, 0]])"
    by code_simp
  then show ?thesis
    using prim_spanning_tree[OF example3_square example3_symmetric example3_spans]
      example3_square example3_symmetric example3_spans
    by (intro conjI)
qed

text \<open>
  C4.  For every symmetric \<open>n \<times> n\<close> matrix of nonnegative distances whose nonzero
  entries connect all \<open>n\<close> cities, the edges that the loop of Prim's algorithm marks
  in \<^verbatim>\<open>mst\<close> are edges of the graph, there are \<open>n - 1\<close> of them, they connect all \<open>n\<close>
  cities, and their total weight is at most the total weight of every set of edges of
  the graph that connects all cities, so of every spanning tree.
\<close>

theorem prim_minimal:
  assumes "square n cities" and "symmetric n cities" and "spans n (links n cities)"
    and "\<forall>i<n. \<forall>j<n. 0 \<le> cities ! i ! j"
  shows "\<exists>vs mst. prim n cities = Inr (vs, mst) \<and>
           mst_edges n mst \<subseteq> graph_edges n cities \<and>
           card (mst_edges n mst) = n - 1 \<and>
           spans n (und (mst_edges n mst)) \<and>
           (\<forall>K. K \<subseteq> graph_edges n cities \<and> spans n (und K) \<longrightarrow>
                total_weight cities (mst_edges n mst) \<le> total_weight cities K)"
proof -
  from prim_loop[OF assms(1-3)] obtain vs mst where
    p: "prim n cities = Inr (vs, mst)" "prim_inv n cities (vs, mst)" "length vs = n"
    "extendable n cities (mst_edges n mst)" by blast
  have n: "0 < n" using assms(3) by (simp add: spans_def)
  have all: "set vs = {0..<n}" using prim_all_cities[OF p(2,3)] .
  from p(2) have inv: "card (mst_edges n mst) + 1 = length vs"
    "\<forall>v\<in>set vs. (0, v) \<in> (tree_links n mst)\<^sup>*"
    "\<forall>i<n. \<forall>j<n. mst ! i ! j = CONNECTED \<longrightarrow> cities ! i ! j \<noteq> 0"
    by (auto simp: prim_inv_def Let_def)
  have sub: "mst_edges n mst \<subseteq> graph_edges n cities"
    using inv(3) by (auto simp: mst_edges_def graph_edges_def)
  have sp: "spans n (und (mst_edges n mst))"
    using inv(2) all n prim_inv_tree_links[OF p(2)] by (auto simp: spans_def)
  have "total_weight cities (mst_edges n mst) \<le> total_weight cities K"
    if K: "K \<subseteq> graph_edges n cities \<and> spans n (und K)" for K
  proof -
    from K have "K \<subseteq> graph_edges n cities" "spans n (und K)" by simp_all
    then obtain K' where K': "K' \<subseteq> graph_edges n cities" "spans n (und K')"
      "mst_edges n mst \<subseteq> K'" "total_weight cities K' \<le> total_weight cities K"
      by (rule extendableD[OF p(4)])
    have "total_weight cities (mst_edges n mst) \<le> total_weight cities K'"
      unfolding total_weight_def
    proof (rule sum_mono2)
      show "finite K'" using finite_graph_edges[OF K'(1)] .
      show "mst_edges n mst \<subseteq> K'" using K'(3) .
      fix e assume "e \<in> K' - mst_edges n mst"
      then have "e \<in> graph_edges n cities" using K'(1) by auto
      then show "0 \<le> (case e of (i, j) \<Rightarrow> cities ! i ! j)"
        using assms(4) by (auto simp: graph_edges_def)
    qed
    with K'(4) show ?thesis by simp
  qed
  with p(1) sub sp inv(1) p(3) show ?thesis by auto
qed

theorem prim_minimal_witness:
  "square 3 example3 \<and> symmetric 3 example3 \<and> spans 3 (links 3 example3) \<and>
   prim 3 example3 = Inr ([0, 2, 1], [[0, 0, 1], [0, 0, 1], [1, 1, 0]]) \<and>
   (\<exists>vs mst. prim 3 example3 = Inr (vs, mst) \<and>
           mst_edges 3 mst \<subseteq> graph_edges 3 example3 \<and>
           card (mst_edges 3 mst) = 3 - 1 \<and>
           spans 3 (und (mst_edges 3 mst)) \<and>
           (\<forall>K. K \<subseteq> graph_edges 3 example3 \<and> spans 3 (und K) \<longrightarrow>
                total_weight example3 (mst_edges 3 mst) \<le> total_weight example3 K))"
proof -
  have "prim 3 example3 = Inr ([0, 2, 1], [[0, 0, 1], [0, 0, 1], [1, 1, 0]])"
    by code_simp
  then show ?thesis
    using prim_minimal[OF example3_square example3_symmetric example3_spans example3_nonneg]
      example3_square example3_symmetric example3_spans
    by (intro conjI)
qed

section \<open>The depth-first search walks a spanning tree\<close>

text \<open>
  A rooted tree with cities as labels.  Its Euler tour records the root, and after the
  tour of each child the root again.
\<close>

datatype rtree = Node nat "rtree list"

fun root :: "rtree \<Rightarrow> nat" where
  "root (Node v cs) = v"

fun children :: "rtree \<Rightarrow> rtree list" where
  "children (Node v cs) = cs"

fun labels :: "rtree \<Rightarrow> nat list" where
  "labels (Node v cs) = v # concat (map labels cs)"

fun tree_pairs :: "rtree \<Rightarrow> (nat \<times> nat) set" where
  "tree_pairs (Node v cs) = (\<lambda>c. (v, root c)) ` set cs \<union> (\<Union>c\<in>set cs. tree_pairs c)"

fun ordered :: "rtree \<Rightarrow> bool" where
  "ordered (Node v cs) \<longleftrightarrow> sorted_wrt (<) (map root cs) \<and> (\<forall>c\<in>set cs. ordered c)"

fun euler :: "rtree \<Rightarrow> nat list" where
  "euler (Node v cs) = v # concat (map (\<lambda>c. euler c @ [v]) cs)"

definition mark :: "nat list \<Rightarrow> int list \<Rightarrow> int list" where
  "mark ls visited = map (\<lambda>i. if i \<in> set ls then VISITED else visited ! i) [0..<length visited]"

lemma length_mark [simp]: "length (mark ls visited) = length visited"
  by (simp add: mark_def)

lemma nth_mark [simp]:
  "i < length visited \<Longrightarrow> mark ls visited ! i = (if i \<in> set ls then VISITED else visited ! i)"
  by (simp add: mark_def)

lemma mark_Nil [simp]: "mark [] visited = visited"
  by (simp add: list_eq_iff_nth_eq)

lemma mark_append: "mark (xs @ ys) visited = mark ys (mark xs visited)"
  by (auto simp: list_eq_iff_nth_eq)

lemma mark_single: "a < length visited \<Longrightarrow> visited[a := VISITED] = mark [a] visited"
  by (auto simp: list_eq_iff_nth_eq nth_list_update)

lemma root_in_labels [simp]: "root t \<in> set (labels t)"
  by (cases t) simp

lemma tree_pairs_labels:
  "(a, b) \<in> tree_pairs t \<Longrightarrow> a \<in> set (labels t) \<and> b \<in> set (labels t)"
proof (induction t arbitrary: a b)
  case (Node v cs)
  from Node.prems consider c where "c \<in> set cs" "a = v" "b = root c"
    | c where "c \<in> set cs" "(a, b) \<in> tree_pairs c"
    by auto
  then show ?case
  proof cases
    case 1
    then show ?thesis by (auto intro: bexI[of _ c])
  next
    case 2
    with Node.IH[of c a b] show ?thesis by auto
  qed
qed

lemma euler_length: "length (euler t) + 1 = 2 * length (labels t)"
proof (induction t)
  case (Node v cs)
  have "length (concat (map (\<lambda>c. euler c @ [v]) cs)) = 2 * length (concat (map labels cs))"
    using Node.IH
  proof (induction cs)
    case Nil
    then show ?case by simp
  next
    case (Cons c cs)
    from Cons.prems[of c] have "length (euler c) + 1 = 2 * length (labels c)" by simp
    moreover have "length (concat (map (\<lambda>c. euler c @ [v]) cs)) = 2 * length (concat (map labels cs))"
      using Cons.IH Cons.prems by simp
    ultimately show ?case by simp
  qed
  then show ?case by simp
qed




lemma labels_disjoint:
  "distinct (concat (map labels cs)) \<Longrightarrow> c \<in> set cs \<Longrightarrow> c' \<in> set cs \<Longrightarrow>
   a \<in> set (labels c) \<Longrightarrow> a \<in> set (labels c') \<Longrightarrow> c = c'"
proof (induction cs)
  case Nil
  then show ?case by simp
next
  case (Cons x xs)
  from Cons.prems(1) have d: "distinct (concat (map labels xs))"
    and dis: "set (labels x) \<inter> set (concat (map labels xs)) = {}" by auto
  have out: "y \<in> set xs \<Longrightarrow> a \<in> set (labels y) \<Longrightarrow> a \<notin> set (labels x)" for y
    using dis by auto
  show ?case
  proof (cases "c = x")
    case True
    then show ?thesis using Cons.prems out[of c'] by auto
  next
    case False
    then have c: "c \<in> set xs" using Cons.prems(2) by simp
    show ?thesis
    proof (cases "c' = x")
      case True
      then show ?thesis using Cons.prems out[OF c] by auto
    next
      case False
      then show ?thesis using Cons.IH[OF d c] Cons.prems by simp
    qed
  qed
qed

lemma pairs_down:
  assumes d: "distinct (labels (Node v cs))" and c: "c \<in> set cs" and a: "a \<in> set (labels c)"
  shows "(a, b) \<in> tree_pairs (Node v cs) \<Longrightarrow> (a, b) \<in> tree_pairs c"
    and "(b, a) \<in> tree_pairs (Node v cs) \<Longrightarrow> (b, a) \<in> tree_pairs c \<or> (b = v \<and> a = root c)"
proof -
  from d have dc: "distinct (concat (map labels cs))" and v: "v \<notin> set (concat (map labels cs))"
    by auto
  have av: "a \<noteq> v" using v a c by auto
  have same: "c' \<in> set cs \<Longrightarrow> a \<in> set (labels c') \<Longrightarrow> c' = c" for c'
    using labels_disjoint[OF dc _ c _ a] by blast
  {
    assume "(a, b) \<in> tree_pairs (Node v cs)"
    then obtain c' where c': "c' \<in> set cs" "(a, b) \<in> tree_pairs c'"
      using av by auto
    then have "a \<in> set (labels c')" using tree_pairs_labels by blast
    with same c' show "(a, b) \<in> tree_pairs c" by blast
  }
  {
    assume "(b, a) \<in> tree_pairs (Node v cs)"
    then consider c' where "c' \<in> set cs" "b = v" "a = root c'"
      | c' where "c' \<in> set cs" "(b, a) \<in> tree_pairs c'"
      by auto
    then show "(b, a) \<in> tree_pairs c \<or> (b = v \<and> a = root c)"
    proof cases
      case 1
      then have "a \<in> set (labels c')" by simp
      with same 1 show ?thesis by blast
    next
      case 2
      then have "a \<in> set (labels c')" using tree_pairs_labels by blast
      with same 2 show ?thesis by blast
    qed
  }
qed

lemma pairs_root:
  assumes d: "distinct (labels (Node v cs))"
  shows "(a, v) \<notin> tree_pairs (Node v cs)"
    and "(v, b) \<in> tree_pairs (Node v cs) \<Longrightarrow> \<exists>c\<in>set cs. b = root c"
proof -
  from d have v: "\<And>c. c \<in> set cs \<Longrightarrow> v \<notin> set (labels c)" by auto
  show "(a, v) \<notin> tree_pairs (Node v cs)"
  proof
    assume "(a, v) \<in> tree_pairs (Node v cs)"
    then consider c where "c \<in> set cs" "v = root c" | c where "c \<in> set cs" "(a, v) \<in> tree_pairs c"
      by auto
    then show False
    proof cases
      case 1
      then show ?thesis using v[of c] root_in_labels[of c] by simp
    next
      case 2
      then show ?thesis using v[of c] tree_pairs_labels[of a v c] by simp
    qed
  qed
  show "\<exists>c\<in>set cs. b = root c" if "(v, b) \<in> tree_pairs (Node v cs)"
  proof -
    from that consider c where "c \<in> set cs" "b = root c" | c where "c \<in> set cs" "(v, b) \<in> tree_pairs c"
      by auto
    then show ?thesis
    proof cases
      case 1
      then show ?thesis by blast
    next
      case 2
      then show ?thesis using v[of c] tree_pairs_labels[of v b c] by simp
    qed
  qed
qed

lemma sorted_head_least:
  assumes "sorted_wrt (<) (map root rs)" "\<forall>c\<in>set rs. i \<le> root c" "rs = [] \<or> root (hd rs) \<noteq> i"
  shows "\<forall>c\<in>set rs. i < root c"
proof (cases rs)
  case Nil
  then show ?thesis by simp
next
  case (Cons r rs')
  with assms have "i < root r" "\<forall>c\<in>set rs'. root r < root c" by auto
  with Cons show ?thesis by auto
qed

lemma dfs_tree:
  assumes sq: "square n g"
  shows "length visited = n \<Longrightarrow> distinct (labels t) \<Longrightarrow>
     (\<forall>a\<in>set (labels t). a < n \<and> visited ! a = UNVISITED) \<Longrightarrow> ordered t \<Longrightarrow>
     (\<forall>a\<in>set (labels t). \<forall>b<n. g ! a ! b = CONNECTED \<longrightarrow>
          (a, b) \<in> und (tree_pairs t) \<or> visited ! b \<noteq> UNVISITED) \<Longrightarrow>
     (\<forall>e\<in>tree_pairs t. g ! fst e ! snd e = CONNECTED) \<Longrightarrow>
     dfs (root t) n g (visited, trail) = Inr (mark (labels t) visited, trail @ euler t)"
proof (induction t arbitrary: visited trail)
  case (Node v cs)
  note len = Node.prems(1) and dist = Node.prems(2) and fresh = Node.prems(3)
    and ord = Node.prems(4) and H1 = Node.prems(5) and H2 = Node.prems(6)
  let ?t = "Node v cs"
  have vn: "v < n" using fresh by simp
  have dc: "distinct (concat (map labels cs))" and vout: "\<And>c. c \<in> set cs \<Longrightarrow> v \<notin> set (labels c)"
    using dist by auto
  have rootn: "\<And>c. c \<in> set cs \<Longrightarrow> root c < n"
    using fresh root_in_labels by fastforce
  have srt: "sorted_wrt (<) (map root cs)" using ord by simp
  have loop: "dfs_loop i v n g (mark (v # concat (map labels ds)) visited, tr)
              = Inr (mark (labels ?t) visited, tr @ concat (map (\<lambda>c. euler c @ [v]) rs))"
    if "cs = ds @ rs" "\<forall>c\<in>set ds. root c < i" "\<forall>c\<in>set rs. i \<le> root c" "i \<le> n"
    for i ds rs tr
    using that
  proof (induction "n - i" arbitrary: i ds rs tr)
    case 0
    then have i: "i = n" by simp
    have "rs = []"
    proof (rule ccontr)
      assume "rs \<noteq> []"
      then obtain c where "c \<in> set rs" by (cases rs) auto
      with 0(2,4) rootn[of c] i show False by auto
    qed
    with 0(2) i show ?case by (simp add: dfs_loop.simps)
  next
    case (Suc k)
    then have i: "i < n" by simp
    let ?vis = "mark (v # concat (map labels ds)) visited"
    have cell: "cell g v i = Inr (g ! v ! i)" using cell_square[OF sq vn i] .
    have il: "i < length ?vis" using i len by simp
    have srs: "sorted_wrt (<) (map root rs)"
      using srt Suc.prems(1) by (simp add: sorted_wrt_append)
    show ?case
    proof (cases "rs \<noteq> [] \<and> root (hd rs) = i")
      case True
      then obtain c rs' where rs: "rs = c # rs'" and rc: "root c = i" by (cases rs) auto
      have c: "c \<in> set cs" using Suc.prems(1) rs by simp
      have cs_eq: "cs = (ds @ [c]) @ rs'" using Suc.prems(1) rs by simp
      have dis: "a \<in> set (labels c) \<Longrightarrow> a \<notin> set (v # concat (map labels ds))" for a
        using dc vout[OF c] unfolding cs_eq by auto
      have "(v, root c) \<in> tree_pairs ?t" using c by auto
      with H2 have "g ! fst (v, root c) ! snd (v, root c) = CONNECTED" by blast
      then have conn: "g ! v ! i = CONNECTED" using rc by simp
      have unv: "?vis ! i = UNVISITED"
        using dis[of i] rc root_in_labels[of c] fresh c il len by auto
      have ih_c: "dfs (root c) n g (?vis, tr) = Inr (mark (labels c) ?vis, tr @ euler c)"
      proof (rule Node.IH[OF c])
        show "length ?vis = n" using len by simp
        show "distinct (labels c)" using dc c unfolding cs_eq by auto
        show "\<forall>a\<in>set (labels c). a < n \<and> ?vis ! a = UNVISITED"
          using dis fresh c len by auto
        show "ordered c" using ord c by simp
        show "\<forall>e\<in>tree_pairs c. g ! fst e ! snd e = CONNECTED" using H2 c by auto
        show "\<forall>a\<in>set (labels c). \<forall>b<n. g ! a ! b = CONNECTED \<longrightarrow>
                (a, b) \<in> und (tree_pairs c) \<or> ?vis ! b \<noteq> UNVISITED"
        proof (intro ballI allI impI)
          fix a b assume a: "a \<in> set (labels c)" and b: "b < n" and ab: "g ! a ! b = CONNECTED"
          have "a \<in> set (labels ?t)" using a c by auto
          with H1 b ab have "(a, b) \<in> und (tree_pairs ?t) \<or> visited ! b \<noteq> UNVISITED" by blast
          then consider "(a, b) \<in> tree_pairs ?t" | "(b, a) \<in> tree_pairs ?t"
            | "visited ! b \<noteq> UNVISITED" by (auto simp: und_def)
          then show "(a, b) \<in> und (tree_pairs c) \<or> ?vis ! b \<noteq> UNVISITED"
          proof cases
            case 1
            from pairs_down(1)[OF dist c a 1] show ?thesis by (simp add: und_def)
          next
            case 2
            from pairs_down(2)[OF dist c a 2] show ?thesis
              using b len by (auto simp: und_def)
          next
            case 3
            then show ?thesis using b len by auto
          qed
        qed
      qed
      have vis': "mark (labels c) ?vis = mark (v # concat (map labels (ds @ [c]))) visited"
        using mark_append[of "v # concat (map labels ds)" "labels c" visited] by simp
      have "dfs_loop (i + 1) v n g (mark (v # concat (map labels (ds @ [c]))) visited, (tr @ euler c) @ [v])
            = Inr (mark (labels ?t) visited,
                   ((tr @ euler c) @ [v]) @ concat (map (\<lambda>c. euler c @ [v]) rs'))"
      proof (rule Suc.hyps(1))
        show "k = n - (i + 1)" using Suc.hyps(2) by simp
        show "cs = (ds @ [c]) @ rs'" using cs_eq .
        show "\<forall>c\<in>set (ds @ [c]). root c < i + 1" using Suc.prems(2) rc by auto
        show "\<forall>c\<in>set rs'. i + 1 \<le> root c" using srs rs rc by auto
        show "i + 1 \<le> n" using i by simp
      qed
      then show ?thesis
        using cell il conn unv ih_c i rc vis' rs
        by (subst dfs_loop.simps) simp
    next
      case False
      have gt: "\<forall>c\<in>set rs. i < root c"
        using sorted_head_least[OF srs Suc.prems(3)] False by blast
      have no: "\<not> (g ! v ! i = CONNECTED \<and> ?vis ! i = UNVISITED)"
      proof
        assume a: "g ! v ! i = CONNECTED \<and> ?vis ! i = UNVISITED"
        then have "visited ! i = UNVISITED" using il len by (auto split: if_splits)
        with H1 a i have "(v, i) \<in> und (tree_pairs ?t)" by fastforce
        then have "(v, i) \<in> tree_pairs ?t"
          using pairs_root(1)[OF dist, of i] by (auto simp: und_def)
        from pairs_root(2)[OF dist this] obtain c where c: "c \<in> set cs" "i = root c" by blast
        then have "c \<in> set ds" using gt Suc.prems(1) by auto
        then have "i \<in> set (v # concat (map labels ds))"
          using c(2) root_in_labels[of c] by (auto intro: bexI[of _ c])
        then have "?vis ! i = VISITED" using il len by simp
        with a show False by simp
      qed
      have "dfs_loop (i + 1) v n g (?vis, tr)
            = Inr (mark (labels ?t) visited, tr @ concat (map (\<lambda>c. euler c @ [v]) rs))"
      proof (rule Suc.hyps(1))
        show "k = n - (i + 1)" using Suc.hyps(2) by simp
        show "cs = ds @ rs" using Suc.prems(1) .
        show "\<forall>c\<in>set ds. root c < i + 1" using Suc.prems(2) by auto
        show "\<forall>c\<in>set rs. i + 1 \<le> root c" using gt by auto
        show "i + 1 \<le> n" using i by simp
      qed
      then show ?thesis
        using cell il no i
        by (subst dfs_loop.simps) auto
    qed
  qed
  have "dfs_loop 0 v n g (mark (v # concat (map labels [])) visited, trail @ [v])
        = Inr (mark (labels ?t) visited, (trail @ [v]) @ concat (map (\<lambda>c. euler c @ [v]) cs))"
    by (rule loop) auto
  moreover have "visited[v := VISITED] = mark (v # concat (map labels [])) visited"
    using mark_single[of v visited] vn len by simp
  ultimately show ?case
    using vn len by simp
qed

definition spanning_rtree :: "nat \<Rightarrow> rtree \<Rightarrow> bool" where
  "spanning_rtree n t \<longleftrightarrow>
     distinct (labels t) \<and> set (labels t) = {0..<n} \<and> root t = 0 \<and> ordered t"

definition represents :: "nat \<Rightarrow> int list list \<Rightarrow> rtree \<Rightarrow> bool" where
  "represents n g t \<longleftrightarrow>
     square n g \<and> (\<forall>a<n. \<forall>b<n. g ! a ! b = CONNECTED \<longleftrightarrow> (a, b) \<in> und (tree_pairs t))"

lemma spanning_rtree_size:
  assumes "spanning_rtree n t"
  shows "length (labels t) = n" "0 < n"
proof -
  from assms have "distinct (labels t)" "set (labels t) = {0..<n}"
    by (auto simp: spanning_rtree_def)
  then show "length (labels t) = n"
    by (metis card_atLeastLessThan diff_zero distinct_card)
  then show "0 < n" by (cases t) auto
qed

lemma dfs_spanning:
  assumes t: "spanning_rtree n t" and g: "represents n g t"
  shows "dfs 0 n g (replicate n UNVISITED, []) = Inr (replicate n VISITED, euler t)"
proof -
  from t have d: "distinct (labels t)" and all: "set (labels t) = {0..<n}" and r: "root t = 0"
    and o: "ordered t" by (auto simp: spanning_rtree_def)
  from g have sq: "square n g"
    and adj: "\<forall>a<n. \<forall>b<n. g ! a ! b = CONNECTED \<longleftrightarrow> (a, b) \<in> und (tree_pairs t)"
    by (auto simp: represents_def)
  have "dfs (root t) n g (replicate n UNVISITED, []) =
        Inr (mark (labels t) (replicate n UNVISITED), [] @ euler t)"
  proof (rule dfs_tree[OF sq _ d _ o])
    show "length (replicate n UNVISITED) = n" by simp
    show "\<forall>a\<in>set (labels t). a < n \<and> replicate n UNVISITED ! a = UNVISITED"
      using all by auto
    show "\<forall>a\<in>set (labels t). \<forall>b<n. g ! a ! b = CONNECTED \<longrightarrow>
            (a, b) \<in> und (tree_pairs t) \<or> replicate n UNVISITED ! b \<noteq> UNVISITED"
      using adj all by auto
    show "\<forall>e\<in>tree_pairs t. g ! fst e ! snd e = CONNECTED"
    proof
      fix e assume e: "e \<in> tree_pairs t"
      obtain a b where ab: "e = (a, b)" by (cases e)
      with e tree_pairs_labels[of a b t] all have "a < n" "b < n" by auto
      with adj e ab show "g ! fst e ! snd e = CONNECTED" by (auto simp: und_def)
    qed
  qed
  moreover have "mark (labels t) (replicate n UNVISITED) = replicate n VISITED"
    using all by (auto simp: list_eq_iff_nth_eq)
  ultimately show ?thesis using r by simp
qed

text \<open>
  C6.  Let \<open>t\<close> be a rooted tree on the cities \<open>0, ..., n - 1\<close> with root 0, the children
  of every vertex listed in increasing order, and let the entries \<^verbatim>\<open>CONNECTED\<close> of \<open>g\<close>
  be exactly the edges of \<open>t\<close>.  Then \<^verbatim>\<open>dfs\<close> from city 0 ends without error, and its
  trail is the Euler tour of \<open>t\<close>: a vertex is recorded when it is entered and again
  after each of its children, taken in the order of the list, has been walked.  All
  cities end up visited and the trail has \<open>2 (n - 1) + 1\<close> entries.
\<close>

theorem dfs_walk_is_euler_tour:
  assumes "spanning_rtree n t" and "represents n g t"
  shows "dfs 0 n g (replicate n UNVISITED, []) = Inr (replicate n VISITED, euler t)
         \<and> length (euler t) = 2 * (n - 1) + 1"
proof -
  have "length (euler t) + 1 = 2 * n"
    using euler_length[of t] spanning_rtree_size(1)[OF assms(1)] by simp
  moreover have "0 < n" using spanning_rtree_size(2)[OF assms(1)] .
  ultimately have "length (euler t) = 2 * (n - 1) + 1" by simp
  with dfs_spanning[OF assms] show ?thesis by simp
qed

definition example_tree :: rtree where
  "example_tree = Node 0 [Node 1 [Node 3 []], Node 2 []]"

definition example_tree_matrix :: "int list list" where
  "example_tree_matrix = [[0, 1, 1, 0], [1, 0, 0, 1], [1, 0, 0, 0], [0, 1, 0, 0]]"


lemma example_tree_spanning: "spanning_rtree 4 example_tree"
  by (auto simp: spanning_rtree_def example_tree_def)

lemma example_tree_represents: "represents 4 example_tree_matrix example_tree"
  by (simp add: represents_def square_def example_tree_matrix_def example_tree_def und_def
      All_less_Suc numeral_eq_Suc)

theorem dfs_walk_is_euler_tour_witness:
  "spanning_rtree 4 example_tree \<and> represents 4 example_tree_matrix example_tree \<and>
   euler example_tree = [0, 1, 3, 1, 0, 2, 0] \<and>
   dfs 0 4 example_tree_matrix (replicate 4 UNVISITED, [])
     = Inr (replicate 4 VISITED, euler example_tree) \<and>
   length (euler example_tree) = 2 * (4 - 1) + 1"
proof -
  have "euler example_tree = [0, 1, 3, 1, 0, 2, 0]" by (simp add: example_tree_def)
  then show ?thesis
    using dfs_walk_is_euler_tour[OF example_tree_spanning example_tree_represents]
      example_tree_spanning example_tree_represents
    by (intro conjI) simp_all
qed









section \<open>The search for the largest mobile integer always succeeds\<close>

text \<open>
  The arrays \<^verbatim>\<open>p\<close> and \<^verbatim>\<open>d\<close> behind position 0 form a list of directed integers: the
  city with its direction.  On such lists \<open>amob\<close> is the test of lines 145 to 147 (a
  city is mobile when it looks at a smaller neighbour), \<open>ascan\<close> the search for the
  largest mobile city, and \<open>astep\<close> the whole move: the swap with the neighbour looked
  at, then the turn of every larger city.  The function \<open>sjt\<close> gives the list after \<open>i\<close>
  moves in closed form: city \<open>k\<close> sweeps through the list of the smaller cities, which
  moves once for each full sweep.
\<close>

type_synonym directed = "nat \<times> int"

definition amob :: "directed list \<Rightarrow> nat \<Rightarrow> bool" where
  "amob xs j \<longleftrightarrow>
     (snd (xs ! j) = LEFT \<and> j \<noteq> 0 \<and> fst (xs ! j) > fst (xs ! (j - 1))) \<or>
     (snd (xs ! j) = RIGHT \<and> j + 1 \<noteq> length xs \<and> fst (xs ! j) > fst (xs ! (j + 1)))"

definition ascan_body :: "directed list \<Rightarrow> nat \<Rightarrow> nat \<times> nat option \<Rightarrow> nat \<times> nat option" where
  "ascan_body xs j s = (if amob xs j \<and> fst (xs ! j) > fst s then (fst (xs ! j), Some j) else s)"

definition ascan :: "directed list \<Rightarrow> nat list \<Rightarrow> nat \<times> nat option \<Rightarrow> nat \<times> nat option" where
  "ascan xs js s = fold (ascan_body xs) js s"

definition turn :: "nat \<Rightarrow> directed \<Rightarrow> directed" where
  "turn lm x = (if fst x > lm then (fst x, if snd x = LEFT then RIGHT else LEFT) else x)"

definition astep :: "directed list \<Rightarrow> directed list option" where
  "astep xs =
     (case ascan xs [0..<length xs] (0, None) of
        (lm, None) \<Rightarrow> None
      | (lm, Some l) \<Rightarrow>
          (let k = (if snd (xs ! l) = LEFT then l - 1 else l + 1)
           in Some (map (turn lm) (xs[l := xs ! k, k := xs ! l]))))"

definition insert_at :: "nat \<Rightarrow> 'a \<Rightarrow> 'a list \<Rightarrow> 'a list" where
  "insert_at pos x xs = take pos xs @ x # drop pos xs"

fun sjt :: "nat \<Rightarrow> nat \<Rightarrow> directed list" where
  "sjt 0 i = []"
| "sjt (Suc k) i =
     (if even (i div Suc k)
      then insert_at (k - i mod Suc k) (Suc k, LEFT) (sjt k (i div Suc k))
      else insert_at (i mod Suc k) (Suc k, RIGHT) (sjt k (i div Suc k)))"


lemma ascan_append: "ascan xs (js @ ks) s = ascan xs ks (ascan xs js s)"
  by (simp add: ascan_def)

lemma ascan_Nil [simp]: "ascan xs [] s = s"
  by (simp add: ascan_def)

lemma ascan_Cons: "ascan xs (j # js) s = ascan xs js (ascan_body xs j s)"
  by (simp add: ascan_def)

text \<open>The scan only ever raises its first component, to a value at a scanned index.\<close>

lemma ascan_bound:
  "(\<forall>j\<in>set js. fst (xs ! j) < K) \<Longrightarrow> fst s < K \<Longrightarrow> fst (ascan xs js s) < K"
  by (induction js arbitrary: s) (auto simp: ascan_Cons ascan_body_def)

lemma ascan_stays:
  "(\<forall>j\<in>set js. fst (xs ! j) \<le> fst s) \<Longrightarrow> ascan xs js s = s"
  by (induction js arbitrary: s) (auto simp: ascan_Cons ascan_body_def)

lemma ascan_Some:
  "ascan xs js (lm0, None) = (lm, Some l) \<Longrightarrow> l \<in> set js \<and> amob xs l \<and> lm = fst (xs ! l)"
proof -
  have "(snd s = None \<or> (\<exists>l\<in>A. snd s = Some l \<and> amob xs l \<and> fst s = fst (xs ! l))) \<Longrightarrow>
        snd (ascan xs js s) = None \<or>
        (\<exists>l\<in>A \<union> set js. snd (ascan xs js s) = Some l \<and> amob xs l \<and>
            fst (ascan xs js s) = fst (xs ! l))" for s A
  proof (induction js arbitrary: s A)
    case Nil
    then show ?case by simp
  next
    case (Cons j js)
    have "snd (ascan_body xs j s) = None \<or>
          (\<exists>l\<in>insert j A. snd (ascan_body xs j s) = Some l \<and> amob xs l \<and>
              fst (ascan_body xs j s) = fst (xs ! l))"
      using Cons.prems by (auto simp: ascan_body_def)
    from Cons.IH[OF this] show ?case by (simp add: ascan_Cons)
  qed
  from this[of "(lm0, None)" "{}"] show "ascan xs js (lm0, None) = (lm, Some l) \<Longrightarrow> ?thesis"
    by auto
qed

lemma turn_small: "fst x \<le> lm \<Longrightarrow> turn lm x = x"
  by (simp add: turn_def)

lemma map_turn_id: "(\<forall>x\<in>set xs. fst x \<le> lm) \<Longrightarrow> map (turn lm) xs = xs"
  by (induction xs) (auto simp: turn_small)

lemma astep_left:
  "ascan xs [0..<length xs] (0, None) = (lm, Some l) \<Longrightarrow> snd (xs ! l) = LEFT \<Longrightarrow>
   astep xs = Some (map (turn lm) (xs[l := xs ! (l - 1), l - 1 := xs ! l]))"
  by (simp add: astep_def Let_def)

lemma astep_right:
  "ascan xs [0..<length xs] (0, None) = (lm, Some l) \<Longrightarrow> snd (xs ! l) = RIGHT \<Longrightarrow>
   astep xs = Some (map (turn lm) (xs[l := xs ! (l + 1), l + 1 := xs ! l]))"
  by (simp add: astep_def Let_def)

text \<open>The largest value of all moves when it has a neighbour in its direction.\<close>

lemma ascan_largest:
  assumes l: "l < length xs" and K: "fst (xs ! l) = K" and mob: "amob xs l"
    and less: "\<forall>j<length xs. j \<noteq> l \<longrightarrow> fst (xs ! j) < K"
  shows "ascan xs [0..<length xs] (0, None) = (K, Some l)"
proof -
  have split: "[0..<length xs] = [0..<l] @ l # [Suc l..<length xs]"
  proof -
    have "[0..<l + (length xs - l)] = [0..<l] @ [l..<l + (length xs - l)]"
      by (rule upt_add_eq_append) simp
    moreover have "l + (length xs - l) = length xs" using l by simp
    ultimately have "[0..<length xs] = [0..<l] @ [l..<length xs]" by (simp only:)
    also have "[l..<length xs] = l # [Suc l..<length xs]"
      using l by (rule upt_conv_Cons)
    finally show ?thesis .
  qed
  have pos: "0 < K"
    using mob K unfolding amob_def by auto
  have "fst (ascan xs [0..<l] (0, None)) < K"
    using less l pos by (intro ascan_bound) auto
  then have "ascan_body xs l (ascan xs [0..<l] (0, None)) = (K, Some l)"
    using mob K by (simp add: ascan_body_def)
  moreover have "ascan xs [Suc l..<length xs] (K, Some l) = (K, Some l)"
    using less by (intro ascan_stays) (auto simp: less_imp_le)
  ultimately have "ascan xs ([0..<l] @ l # [Suc l..<length xs]) (0, None) = (K, Some l)"
    by (simp only: ascan_append ascan_Cons)
  then show ?thesis using split by simp
qed

lemma astep_move_left:
  assumes "\<forall>x\<in>set as \<union> {a} \<union> set bs. fst x < K"
  shows "astep (as @ [a, (K, LEFT)] @ bs) = Some (as @ [(K, LEFT), a] @ bs)"
proof -
  let ?xs = "as @ [a, (K, LEFT)] @ bs"
  let ?l = "Suc (length as)"
  have l: "?l < length ?xs" by simp
  have at: "?xs ! ?l = (K, LEFT)" "?xs ! length as = a"
    by (simp_all add: nth_append)
  have mob: "amob ?xs ?l"
    using at assms by (simp add: amob_def)
  have less: "\<forall>j<length ?xs. j \<noteq> ?l \<longrightarrow> fst (?xs ! j) < K"
  proof (intro allI impI)
    fix j assume j: "j < length ?xs" "j \<noteq> ?l"
    then have "?xs ! j \<in> set as \<union> {a} \<union> set bs"
      by (auto simp: nth_append nth_Cons')
    with assms show "fst (?xs ! j) < K" by blast
  qed
  have scan: "ascan ?xs [0..<length ?xs] (0, None) = (K, Some ?l)"
    using ascan_largest[OF l _ mob less] at by simp
  have swap: "?xs[?l := ?xs ! (?l - 1), ?l - 1 := ?xs ! ?l] = as @ [(K, LEFT), a] @ bs"
    using at by (simp add: list_update_append)
  have id: "map (turn K) (as @ [(K, LEFT), a] @ bs) = as @ [(K, LEFT), a] @ bs"
    using assms by (intro map_turn_id) (auto simp: less_imp_le)
  have "snd (?xs ! ?l) = LEFT" using at by simp
  from astep_left[OF scan this] show ?thesis
    by (simp only: swap id)
qed

lemma astep_move_right:
  assumes "\<forall>x\<in>set as \<union> {a} \<union> set bs. fst x < K"
  shows "astep (as @ [(K, RIGHT), a] @ bs) = Some (as @ [a, (K, RIGHT)] @ bs)"
proof -
  let ?xs = "as @ [(K, RIGHT), a] @ bs"
  let ?l = "length as"
  have l: "?l < length ?xs" by simp
  have at: "?xs ! ?l = (K, RIGHT)" "?xs ! Suc ?l = a"
    by (simp_all add: nth_append)
  have mob: "amob ?xs ?l"
    using at assms by (simp add: amob_def)
  have less: "\<forall>j<length ?xs. j \<noteq> ?l \<longrightarrow> fst (?xs ! j) < K"
  proof (intro allI impI)
    fix j assume j: "j < length ?xs" "j \<noteq> ?l"
    then have "?xs ! j \<in> set as \<union> {a} \<union> set bs"
      by (auto simp: nth_append nth_Cons')
    with assms show "fst (?xs ! j) < K" by blast
  qed
  have scan: "ascan ?xs [0..<length ?xs] (0, None) = (K, Some ?l)"
    using ascan_largest[OF l _ mob less] at by simp
  have swap: "?xs[?l := ?xs ! (?l + 1), ?l + 1 := ?xs ! ?l] = as @ [a, (K, RIGHT)] @ bs"
    using at by (simp add: list_update_append)
  have id: "map (turn K) (as @ [a, (K, RIGHT)] @ bs) = as @ [a, (K, RIGHT)] @ bs"
    using assms by (intro map_turn_id) (auto simp: less_imp_le)
  have "snd (?xs ! ?l) = RIGHT" using at by simp
  from astep_right[OF scan this] show ?thesis
    by (simp only: swap id)
qed

lemma astep_SomeD:
  assumes "astep ys = Some ys'"
  obtains lm l where "ascan ys [0..<length ys] (0, None) = (lm, Some l)"
    "l < length ys" "amob ys l" "lm = fst (ys ! l)"
    "snd (ys ! l) = LEFT \<longrightarrow> ys' = map (turn lm) (ys[l := ys ! (l - 1), l - 1 := ys ! l])"
    "snd (ys ! l) \<noteq> LEFT \<longrightarrow> ys' = map (turn lm) (ys[l := ys ! (l + 1), l + 1 := ys ! l])"
proof -
  obtain lm r where s: "ascan ys [0..<length ys] (0, None) = (lm, r)"
    by (cases "ascan ys [0..<length ys] (0, None)")
  with assms obtain l where r: "r = Some l"
    by (cases r) (auto simp: astep_def)
  from ascan_Some[OF s[unfolded r]] have "l < length ys" "amob ys l" "lm = fst (ys ! l)"
    by auto
  moreover have "snd (ys ! l) = LEFT \<longrightarrow>
      ys' = map (turn lm) (ys[l := ys ! (l - 1), l - 1 := ys ! l])"
    using assms s r by (auto simp: astep_def Let_def)
  moreover have "snd (ys ! l) \<noteq> LEFT \<longrightarrow>
      ys' = map (turn lm) (ys[l := ys ! (l + 1), l + 1 := ys ! l])"
    using assms s r by (auto simp: astep_def Let_def)
  ultimately show thesis using that[of lm l] s r by simp
qed

lemma amob_dir: "amob xs l \<Longrightarrow> snd (xs ! l) = LEFT \<or> snd (xs ! l) = RIGHT"
  by (auto simp: amob_def)

text \<open>The largest value rests at the right end, pointing outwards.\<close>

lemma amob_snoc:
  assumes "j < length ys" "\<forall>y\<in>set ys. fst y < K"
  shows "amob (ys @ [(K, RIGHT)]) j \<longleftrightarrow> amob ys j"
proof (cases "Suc j = length ys")
  case True
  have "fst (ys ! j) < K" using assms by simp
  then show ?thesis
    using assms(1) True by (auto simp: amob_def nth_append)
next
  case False
  then show ?thesis
    using assms(1) by (auto simp: amob_def nth_append)
qed

lemma ascan_snoc:
  assumes "\<forall>j\<in>set js. j < length ys" "\<forall>y\<in>set ys. fst y < K"
  shows "ascan (ys @ [(K, RIGHT)]) js s = ascan ys js s"
  using assms(1)
proof (induction js arbitrary: s)
  case Nil
  then show ?case by simp
next
  case (Cons j js)
  then have j: "j < length ys" by simp
  have "ascan_body (ys @ [(K, RIGHT)]) j s = ascan_body ys j s"
    using amob_snoc[OF j assms(2)] j by (simp add: ascan_body_def nth_append)
  with Cons show ?case by (simp add: ascan_Cons)
qed

lemma astep_rest_right:
  assumes step: "astep ys = Some ys'" and K: "\<forall>y\<in>set ys. fst y < K"
  shows "astep (ys @ [(K, RIGHT)]) = Some (ys' @ [(K, LEFT)])"
proof -
  let ?big = "ys @ [(K, RIGHT)]"
  from step obtain lm l where s: "ascan ys [0..<length ys] (0, None) = (lm, Some l)"
    and l: "l < length ys" and mob: "amob ys l" and lm: "lm = fst (ys ! l)"
    and left': "snd (ys ! l) = LEFT \<longrightarrow>
         ys' = map (turn lm) (ys[l := ys ! (l - 1), l - 1 := ys ! l])"
    and right': "snd (ys ! l) \<noteq> LEFT \<longrightarrow>
         ys' = map (turn lm) (ys[l := ys ! (l + 1), l + 1 := ys ! l])"
    by (rule astep_SomeD)
  note left = left'[rule_format] and right = right'[rule_format]
  have lmK: "lm < K" using lm l K by simp
  have "\<not> amob ?big (length ys)"
    by (simp add: amob_def)
  then have last: "ascan_body ?big (length ys) s' = s'" for s'
    by (simp add: ascan_body_def)
  have "ascan ?big [0..<length ?big] (0, None)
        = ascan_body ?big (length ys) (ascan ?big [0..<length ys] (0, None))"
    by (simp add: ascan_append ascan_Cons)
  also have "\<dots> = ascan ys [0..<length ys] (0, None)"
    using ascan_snoc[of "[0..<length ys]" ys K] K by (simp add: last)
  finally have scan: "ascan ?big [0..<length ?big] (0, None) = (lm, Some l)"
    using s by simp
  have turnK: "turn lm (K, RIGHT) = (K, LEFT)"
    using lmK by (simp add: turn_def)
  show ?thesis
  proof (cases "snd (ys ! l) = LEFT")
    case True
    then have "snd (?big ! l) = LEFT" using l by (simp add: nth_append)
    from astep_left[OF scan this]
    have "astep ?big = Some (map (turn lm) (?big[l := ?big ! (l - 1), l - 1 := ?big ! l]))" .
    moreover have "l - 1 < length ys" using l by simp
    then have "?big[l := ?big ! (l - 1), l - 1 := ?big ! l]
                   = ys[l := ys ! (l - 1), l - 1 := ys ! l] @ [(K, RIGHT)]"
      using l by (simp add: list_update_append1 nth_append)
    ultimately show ?thesis using left[OF True] turnK by simp
  next
    case False
    then have r: "snd (ys ! l) = RIGHT" using amob_dir[OF mob] by simp
    then have l1: "Suc l < length ys" using mob l by (auto simp: amob_def)
    have "snd (?big ! l) = RIGHT" using l r by (simp add: nth_append)
    from astep_right[OF scan this]
    have "astep ?big = Some (map (turn lm) (?big[l := ?big ! (l + 1), l + 1 := ?big ! l]))" .
    moreover have "?big[l := ?big ! (l + 1), l + 1 := ?big ! l]
                   = ys[l := ys ! (l + 1), l + 1 := ys ! l] @ [(K, RIGHT)]"
      using l l1 by (simp add: list_update_append1 nth_append)
    ultimately show ?thesis using right[OF False] turnK by simp
  qed
qed

text \<open>The largest value rests at the left end, pointing outwards.\<close>

lemma amob_Cons:
  assumes "j < length ys" "\<forall>y\<in>set ys. fst y < K"
  shows "amob ((K, LEFT) # ys) (Suc j) \<longleftrightarrow> amob ys j"
proof (cases j)
  case 0
  have "fst (ys ! 0) < K" using assms by (cases ys) auto
  then show ?thesis
    using assms(1) 0 by (auto simp: amob_def)
next
  case (Suc j')
  then show ?thesis
    using assms(1) by (auto simp: amob_def)
qed

lemma ascan_Cons_shift:
  assumes "\<forall>j\<in>set js. j < length ys" "\<forall>y\<in>set ys. fst y < K"
  shows "ascan ((K, LEFT) # ys) (map Suc js) (lm, map_option Suc r)
         = (fst (ascan ys js (lm, r)), map_option Suc (snd (ascan ys js (lm, r))))"
  using assms(1)
proof (induction js arbitrary: lm r)
  case Nil
  then show ?case by simp
next
  case (Cons j js)
  then have j: "j < length ys" by simp
  obtain lm' r' where b: "ascan_body ys j (lm, r) = (lm', r')"
    by (cases "ascan_body ys j (lm, r)")
  have "ascan_body ((K, LEFT) # ys) (Suc j) (lm, map_option Suc r) = (lm', map_option Suc r')"
    using amob_Cons[OF j assms(2)] b by (auto simp: ascan_body_def split: if_splits)
  with Cons.IH[of lm' r'] Cons.prems b show ?case
    by (simp add: ascan_Cons)
qed

lemma astep_rest_left:
  assumes step: "astep ys = Some ys'" and K: "\<forall>y\<in>set ys. fst y < K"
  shows "astep ((K, LEFT) # ys) = Some ((K, RIGHT) # ys')"
proof -
  let ?big = "(K, LEFT) # ys"
  from step obtain lm l where s: "ascan ys [0..<length ys] (0, None) = (lm, Some l)"
    and l: "l < length ys" and mob: "amob ys l" and lm: "lm = fst (ys ! l)"
    and left': "snd (ys ! l) = LEFT \<longrightarrow>
         ys' = map (turn lm) (ys[l := ys ! (l - 1), l - 1 := ys ! l])"
    and right': "snd (ys ! l) \<noteq> LEFT \<longrightarrow>
         ys' = map (turn lm) (ys[l := ys ! (l + 1), l + 1 := ys ! l])"
    by (rule astep_SomeD)
  note left = left'[rule_format] and right = right'[rule_format]
  have lmK: "lm < K" using lm l K by simp
  have "\<not> amob ?big 0"
    by (simp add: amob_def)
  then have first: "ascan_body ?big 0 s' = s'" for s'
    by (simp add: ascan_body_def)
  have idx: "[0..<length ?big] = 0 # map Suc [0..<length ys]"
    by (simp add: upt_conv_Cons map_Suc_upt del: upt_Suc)
  have "ascan ?big [0..<length ?big] (0, None)
        = ascan ?big (map Suc [0..<length ys]) (0, map_option Suc None)"
    unfolding idx by (simp add: ascan_Cons first)
  also have "\<dots> = (lm, Some (Suc l))"
    using ascan_Cons_shift[of "[0..<length ys]" ys K 0 None] K s by simp
  finally have scan: "ascan ?big [0..<length ?big] (0, None) = (lm, Some (Suc l))" .
  have turnK: "turn lm (K, LEFT) = (K, RIGHT)"
    using lmK by (simp add: turn_def)
  show ?thesis
  proof (cases "snd (ys ! l) = LEFT")
    case True
    then obtain l' where l': "l = Suc l'" using mob by (cases l) (auto simp: amob_def)
    have "snd (?big ! Suc l) = LEFT" using True by simp
    from astep_left[OF scan this]
    have "astep ?big
          = Some (map (turn lm) (?big[Suc l := ?big ! (Suc l - 1), Suc l - 1 := ?big ! Suc l]))" .
    moreover have "?big[Suc l := ?big ! (Suc l - 1), Suc l - 1 := ?big ! Suc l]
                   = (K, LEFT) # ys[l := ys ! (l - 1), l - 1 := ys ! l]"
      using l' by simp
    ultimately show ?thesis using left[OF True] turnK by simp
  next
    case False
    then have r: "snd (ys ! l) = RIGHT" using amob_dir[OF mob] by simp
    have "snd (?big ! Suc l) = RIGHT" using r by simp
    from astep_right[OF scan this]
    have "astep ?big
          = Some (map (turn lm) (?big[Suc l := ?big ! (Suc l + 1), Suc l + 1 := ?big ! Suc l]))" .
    moreover have "?big[Suc l := ?big ! (Suc l + 1), Suc l + 1 := ?big ! Suc l]
                   = (K, LEFT) # ys[l := ys ! (l + 1), l + 1 := ys ! l]"
      by simp
    ultimately show ?thesis using right[OF False] turnK by simp
  qed
qed

lemma insert_at_0 [simp]: "insert_at 0 x ys = x # ys"
  by (simp add: insert_at_def)

lemma insert_at_length [simp]: "insert_at (length ys) x ys = ys @ [x]"
  by (simp add: insert_at_def)

lemma insert_at_before:
  assumes "pos < length ys"
  shows "insert_at (Suc pos) x ys = take pos ys @ [ys ! pos, x] @ drop (Suc pos) ys"
    and "insert_at pos x ys = take pos ys @ [x, ys ! pos] @ drop (Suc pos) ys"
  using assms by (simp_all add: insert_at_def take_Suc_conv_app_nth Cons_nth_drop_Suc)

lemma length_insert_at [simp]: "length (insert_at pos x ys) = Suc (length ys)"
  by (simp add: insert_at_def)

lemma set_insert_at: "set (insert_at pos x ys) = insert x (set ys)"
proof -
  have "set (take pos ys) \<union> set (drop pos ys) = set ys"
    by (metis append_take_drop_id set_append)
  then show ?thesis by (auto simp: insert_at_def)
qed

lemma length_sjt [simp]: "length (sjt k i) = k"
  by (induction k arbitrary: i) simp_all

lemma sjt_values: "x \<in> set (sjt k i) \<Longrightarrow> 0 < fst x \<and> fst x \<le> k"
proof (induction k arbitrary: i)
  case 0
  then show ?case by simp
next
  case (Suc k)
  then have "x = (Suc k, LEFT) \<or> x = (Suc k, RIGHT) \<or> x \<in> set (sjt k (i div Suc k))"
    by (auto simp: set_insert_at split: if_splits)
  with Suc.IH[of "i div Suc k"] show ?case by auto
qed

lemma sjt_dirs: "x \<in> set (sjt k i) \<Longrightarrow> snd x = LEFT \<or> snd x = RIGHT"
proof (induction k arbitrary: i)
  case 0
  then show ?case by simp
next
  case (Suc k)
  then have "x = (Suc k, LEFT) \<or> x = (Suc k, RIGHT) \<or> x \<in> set (sjt k (i div Suc k))"
    by (auto simp: set_insert_at split: if_splits)
  with Suc.IH[of "i div Suc k"] show ?case by auto
qed

text \<open>One move leads from the list after \<open>i\<close> moves to the list after \<open>i + 1\<close> moves, as long as a
  further permutation exists.\<close>

lemma astep_sjt: "Suc i < fact k \<Longrightarrow> astep (sjt k i) = Some (sjt k (Suc i))"
proof (induction k arbitrary: i)
  case 0
  then show ?case by simp
next
  case (Suc k)
  let ?q = "i div Suc k" and ?r = "i mod Suc k"
  let ?ys = "sjt k ?q"
  have small: "\<forall>y\<in>set ?ys. fst y < Suc k"
    using sjt_values[of _ k ?q] by (auto simp: less_Suc_eq_le)
  have r: "?r \<le> k" by (simp add: less_Suc_eq_le[symmetric])
  show ?case
  proof (cases "?r = k")
    case False
    then have rk: "?r < k" using r by arith
    have q': "Suc i div Suc k = ?q" and r': "Suc i mod Suc k = Suc ?r"
      using rk by (simp_all add: div_Suc mod_Suc)
    show ?thesis
    proof (cases "even ?q")
      case True
      let ?pos = "k - Suc ?r"
      have pos: "?pos < length ?ys" "k - ?r = Suc ?pos" using rk by simp_all
      have sub: "\<forall>x\<in>set (take ?pos ?ys) \<union> {?ys ! ?pos} \<union> set (drop (Suc ?pos) ?ys). fst x < Suc k"
        using small pos(1) by (auto dest: in_set_takeD in_set_dropD)
      have "astep (sjt (Suc k) i) = astep (insert_at (Suc ?pos) (Suc k, LEFT) ?ys)"
        using True pos(2) by simp
      also have "\<dots> = Some (insert_at ?pos (Suc k, LEFT) ?ys)"
        unfolding insert_at_before[OF pos(1)] using sub by (rule astep_move_left)
      also have "insert_at ?pos (Suc k, LEFT) ?ys = sjt (Suc k) (Suc i)"
        using True q' r' by simp
      finally show ?thesis .
    next
      case False
      have pos: "?r < length ?ys" using rk by simp
      have sub: "\<forall>x\<in>set (take ?r ?ys) \<union> {?ys ! ?r} \<union> set (drop (Suc ?r) ?ys). fst x < Suc k"
        using small pos by (auto dest: in_set_takeD in_set_dropD)
      have "astep (sjt (Suc k) i) = astep (insert_at ?r (Suc k, RIGHT) ?ys)"
        using False by simp
      also have "\<dots> = Some (insert_at (Suc ?r) (Suc k, RIGHT) ?ys)"
        unfolding insert_at_before[OF pos] using sub by (rule astep_move_right)
      also have "insert_at (Suc ?r) (Suc k, RIGHT) ?ys = sjt (Suc k) (Suc i)"
        using False q' r' by simp
      finally show ?thesis .
    qed
  next
    case True
    have q': "Suc i div Suc k = Suc ?q" and r': "Suc i mod Suc k = 0"
      using True by (simp_all add: div_Suc mod_Suc)
    have "Suc i = Suc ?q * Suc k"
      using q' r' by (metis add.right_neutral div_mult_mod_eq)
    with Suc.prems have "Suc k * Suc ?q < Suc k * fact k"
      by (simp only: fact_Suc mult.commute of_nat_id)
    then have "Suc ?q < fact k" by (simp only: Suc_mult_less_cancel1)
    from Suc.IH[OF this] have ih: "astep ?ys = Some (sjt k (Suc ?q))" .
    show ?thesis
    proof (cases "even ?q")
      case ev: True
      have "sjt (Suc k) i = (Suc k, LEFT) # ?ys" using ev True by simp
      moreover have "sjt (Suc k) (Suc i) = (Suc k, RIGHT) # sjt k (Suc ?q)"
        using ev q' r' by simp
      ultimately show ?thesis using astep_rest_left[OF ih small] by simp
    next
      case od: False
      have "sjt (Suc k) i = ?ys @ [(Suc k, RIGHT)]"
        using od True insert_at_length[of ?ys] by simp
      moreover have "sjt (Suc k) (Suc i) = sjt k (Suc ?q) @ [(Suc k, LEFT)]"
        using od q' r' insert_at_length[of "sjt k (Suc ?q)"] by simp
      ultimately show ?thesis using astep_rest_right[OF ih small] by simp
    qed
  qed
qed

text \<open>The arrays \<^verbatim>\<open>p\<close> and \<^verbatim>\<open>d\<close> that hold a list of directed integers behind city 0.\<close>

definition p_of :: "directed list \<Rightarrow> nat list" where
  "p_of xs = 0 # map fst xs"

definition d_of :: "directed list \<Rightarrow> int list" where
  "d_of xs = LEFT # map snd xs"

definition directions_ok :: "directed list \<Rightarrow> bool" where
  "directions_ok xs \<longleftrightarrow> (\<forall>x\<in>set xs. snd x = LEFT \<or> snd x = RIGHT)"

lemma p_of_nth [simp]: "p_of xs ! 0 = 0" "j < length xs \<Longrightarrow> p_of xs ! Suc j = fst (xs ! j)"
  by (simp_all add: p_of_def)

lemma d_of_nth [simp]: "d_of xs ! 0 = LEFT" "j < length xs \<Longrightarrow> d_of xs ! Suc j = snd (xs ! j)"
  by (simp_all add: d_of_def)

lemma length_p_of [simp]: "length (p_of xs) = Suc (length xs)"
  by (simp add: p_of_def)

lemma length_d_of [simp]: "length (d_of xs) = Suc (length xs)"
  by (simp add: d_of_def)

lemma find_mobile_body_left:
  assumes "J < length ps" "J < length ds" "ds ! J = LEFT" "1 < J"
  shows "find_mobile_body n ps ds J s
         = Inr (if ps ! J > ps ! (J - 1) \<and> ps ! J > fst s then (ps ! J, Some J) else s)"
proof -
  have "nat (int J + LEFT) = J - 1" "\<not> int J + LEFT < 0" "\<not> int (length ps) \<le> int J + LEFT"
    using assms by simp_all
  then show ?thesis
    using assms by (simp add: find_mobile_body_def Let_def)
qed

lemma find_mobile_body_left_end:
  assumes "1 < length ps" "1 < length ds" "ds ! 1 = LEFT"
  shows "find_mobile_body n ps ds 1 s = Inr s"
  using assms by (simp add: find_mobile_body_def)

lemma find_mobile_body_right:
  assumes "J + 1 < length ps" "J < length ds" "ds ! J = RIGHT" "J \<noteq> n - 1"
  shows "find_mobile_body n ps ds J s
         = Inr (if ps ! J > ps ! (J + 1) \<and> ps ! J > fst s then (ps ! J, Some J) else s)"
proof -
  have "nat (int J + RIGHT) = J + 1" "\<not> int J + RIGHT < 0" "\<not> int (length ps) \<le> int J + RIGHT"
    using assms by simp_all
  then show ?thesis
    using assms by (simp add: find_mobile_body_def Let_def)
qed

lemma find_mobile_body_right_end:
  assumes "J < length ps" "J < length ds" "ds ! J = RIGHT" "J = n - 1"
  shows "find_mobile_body n ps ds J s = Inr s"
  using assms by (simp add: find_mobile_body_def)

lemma find_mobile_body_eq:
  assumes j: "j < length xs" and dir: "snd (xs ! j) = LEFT \<or> snd (xs ! j) = RIGHT"
  shows "find_mobile_body (Suc (length xs)) (p_of xs) (d_of xs) (Suc j) s
         = Inr (if amob xs j \<and> fst (xs ! j) > fst s then (fst (xs ! j), Some (Suc j)) else s)"
proof -
  have len: "Suc j < length (p_of xs)" "Suc j < length (d_of xs)" using j by simp_all
  have at: "p_of xs ! Suc j = fst (xs ! j)" "d_of xs ! Suc j = snd (xs ! j)" using j by simp_all
  from dir show ?thesis
  proof
    assume l: "snd (xs ! j) = LEFT"
    show ?thesis
    proof (cases j)
      case 0
      have "find_mobile_body (Suc (length xs)) (p_of xs) (d_of xs) 1 s = Inr s"
        using len at l 0 by (intro find_mobile_body_left_end) simp_all
      moreover have "\<not> amob xs j" using l 0 by (simp add: amob_def)
      ultimately show ?thesis using 0 by simp
    next
      case (Suc j')
      have "find_mobile_body (Suc (length xs)) (p_of xs) (d_of xs) (Suc j) s
            = Inr (if p_of xs ! Suc j > p_of xs ! (Suc j - 1) \<and> p_of xs ! Suc j > fst s
                   then (p_of xs ! Suc j, Some (Suc j)) else s)"
        using len at l Suc by (intro find_mobile_body_left) simp_all
      moreover have "p_of xs ! (Suc j - 1) = fst (xs ! (j - 1))"
        using Suc j by simp
      moreover have "amob xs j \<longleftrightarrow> fst (xs ! j) > fst (xs ! (j - 1))"
        using l Suc by (simp add: amob_def)
      ultimately show ?thesis using at by simp
    qed
  next
    assume r: "snd (xs ! j) = RIGHT"
    show ?thesis
    proof (cases "Suc j = length xs")
      case True
      have "find_mobile_body (Suc (length xs)) (p_of xs) (d_of xs) (Suc j) s = Inr s"
        using len at r True by (intro find_mobile_body_right_end) simp_all
      moreover have "\<not> amob xs j" using r True by (simp add: amob_def)
      ultimately show ?thesis by simp
    next
      case False
      then have j1: "Suc j < length xs" using j by simp
      have "find_mobile_body (Suc (length xs)) (p_of xs) (d_of xs) (Suc j) s
            = Inr (if p_of xs ! Suc j > p_of xs ! (Suc j + 1) \<and> p_of xs ! Suc j > fst s
                   then (p_of xs ! Suc j, Some (Suc j)) else s)"
        using len at r False j1 by (intro find_mobile_body_right) simp_all
      moreover have "p_of xs ! (Suc j + 1) = fst (xs ! (j + 1))"
        using j1 by simp
      moreover have "amob xs j \<longleftrightarrow> fst (xs ! j) > fst (xs ! (j + 1))"
        using r False by (simp add: amob_def)
      ultimately show ?thesis using at by simp
    qed
  qed
qed

definition encode :: "nat option \<Rightarrow> nat option \<Rightarrow> nat option" where
  "encode lmi r = (case r of None \<Rightarrow> lmi | Some l \<Rightarrow> Some (Suc l))"

lemma find_mobile_loop:
  assumes ok: "directions_ok xs"
  shows "\<forall>j\<in>set js. j < length xs \<Longrightarrow>
     for_loop (map Suc js) (find_mobile_body (Suc (length xs)) (p_of xs) (d_of xs))
       (lm, encode lmi r)
     = Inr (fst (ascan xs js (lm, r)), encode lmi (snd (ascan xs js (lm, r))))"
proof (induction js arbitrary: lm r)
  case Nil
  then show ?case by simp
next
  case (Cons j js)
  then have j: "j < length xs" by simp
  then have dir: "snd (xs ! j) = LEFT \<or> snd (xs ! j) = RIGHT"
    using ok by (simp add: directions_ok_def)
  obtain lm' r' where b: "ascan_body xs j (lm, r) = (lm', r')"
    by (cases "ascan_body xs j (lm, r)")
  have "find_mobile_body (Suc (length xs)) (p_of xs) (d_of xs) (Suc j) (lm, encode lmi r)
        = Inr (lm', encode lmi r')"
    using b unfolding find_mobile_body_eq[OF j dir]
    by (auto simp: ascan_body_def encode_def split: if_splits)
  with Cons.IH[of lm' r'] Cons.prems b show ?case
    by (simp add: ascan_Cons)
qed

lemma find_mobile_eq:
  assumes "directions_ok xs"
  shows "find_mobile (Suc (length xs)) (p_of xs) (d_of xs) lmi
         = Inr (fst (ascan xs [0..<length xs] (0, None)),
                encode lmi (snd (ascan xs [0..<length xs] (0, None))))"
proof -
  have "[1..<Suc (length xs)] = map Suc [0..<length xs]"
    by (simp add: map_Suc_upt del: upt_Suc)
  then show ?thesis
    using find_mobile_loop[OF assms, of "[0..<length xs]" 0 lmi None]
    by (simp add: find_mobile_def encode_def del: upt_Suc)
qed

lemma swap_mobile_arrays:
  assumes "L < length ps" "length ds = length ps" "int L + ds ! L = int K" "K < length ps"
  shows "swap_mobile ps ds (Some L) = Inr (ps[L := ps ! K, K := ps ! L], ds[K := ds ! L, L := ds ! K])"
  using assms by (simp add: swap_mobile_def Let_def)

lemma swap_mobile_eq:
  assumes l: "l < length xs" and mob: "amob xs l"
    and k: "k = (if snd (xs ! l) = LEFT then l - 1 else l + 1)"
  shows "swap_mobile (p_of xs) (d_of xs) (Some (Suc l))
         = Inr (p_of (xs[l := xs ! k, k := xs ! l]), d_of (xs[l := xs ! k, k := xs ! l]))"
proof -
  have kl: "k < length xs" "k \<noteq> l" and t: "int (Suc l) + snd (xs ! l) = int (Suc k)"
    using mob l k by (auto simp: amob_def)
  have "swap_mobile (p_of xs) (d_of xs) (Some (Suc l))
        = Inr ((p_of xs)[Suc l := p_of xs ! Suc k, Suc k := p_of xs ! Suc l],
               (d_of xs)[Suc k := d_of xs ! Suc l, Suc l := d_of xs ! Suc k])"
    using l kl t by (intro swap_mobile_arrays) simp_all
  moreover have "(p_of xs)[Suc l := p_of xs ! Suc k, Suc k := p_of xs ! Suc l]
                 = p_of (xs[l := xs ! k, k := xs ! l])"
    using l kl by (simp add: p_of_def map_update)
  moreover have "(d_of xs)[Suc k := d_of xs ! Suc l, Suc l := d_of xs ! Suc k]
                 = d_of (xs[l := xs ! k, k := xs ! l])"
    using l kl by (simp add: d_of_def map_update list_update_swap[of k l])
  ultimately show ?thesis by simp
qed

lemma fst_turn [simp]: "fst (turn lm x) = fst x"
  by (simp add: turn_def)

lemma p_of_turn [simp]: "p_of (map (turn lm) xs) = p_of xs"
  by (simp add: p_of_def)

lemma flip_prefix:
  "m \<le> length xs \<Longrightarrow>
   fold (\<lambda>j ds'. if p_of xs ! j > lm
                  then ds'[j := (if ds' ! j = LEFT then RIGHT else LEFT)] else ds')
     [1..<Suc m] (d_of xs)
   = LEFT # map snd (map (turn lm) (take m xs)) @ map snd (drop m xs)"
proof (induction m)
  case 0
  then show ?case by (simp add: d_of_def)
next
  case (Suc m)
  then have m: "m < length xs" by simp
  have split: "[1..<Suc (Suc m)] = [1..<Suc m] @ [Suc m]"
    by simp
  have dr: "drop m xs = xs ! m # drop (Suc m) xs"
    using m by (simp add: Cons_nth_drop_Suc)
  have tk: "take (Suc m) xs = take m xs @ [xs ! m]"
    using m by (simp add: take_Suc_conv_app_nth)
  have len: "length (map snd (map (turn lm) (take m xs))) = m"
    using m by simp
  let ?pre = "map snd (map (turn lm) (take m xs))"
  let ?post = "map snd (drop (Suc m) xs)"
  have at: "(LEFT # ?pre @ snd (xs ! m) # ?post) ! Suc m = snd (xs ! m)"
    using len by (simp add: nth_append)
  have upd: "(LEFT # ?pre @ snd (xs ! m) # ?post)[Suc m := v] = LEFT # ?pre @ v # ?post" for v
    using len by (simp add: list_update_append)
  have pm: "p_of xs ! Suc m = fst (xs ! m)" using m by simp
  have "fold (\<lambda>j ds'. if p_of xs ! j > lm
                  then ds'[j := (if ds' ! j = LEFT then RIGHT else LEFT)] else ds')
     [1..<Suc (Suc m)] (d_of xs)
     = (let ds' = LEFT # ?pre @ snd (xs ! m) # ?post in
        if fst (xs ! m) > lm
        then ds'[Suc m := (if ds' ! Suc m = LEFT then RIGHT else LEFT)] else ds')"
    unfolding split fold_append o_apply Suc.IH[OF less_imp_le[OF m]] dr
    by (simp only: fold_simps pm Let_def id_apply o_apply list.map)
  also have "\<dots> = LEFT # ?pre @ snd (turn lm (xs ! m)) # ?post"
    unfolding Let_def at upd by (simp add: turn_def)
  also have "\<dots> = LEFT # map snd (map (turn lm) (take (Suc m) xs)) @ map snd (drop (Suc m) xs)"
    unfolding tk by simp
  finally show ?case .
qed

lemma flip_directions_eq:
  "flip_directions (Suc (length xs)) (p_of xs) lm (d_of xs) = d_of (map (turn lm) xs)"
  using flip_prefix[of "length xs" xs lm]
  by (simp add: flip_directions_def d_of_def del: upt_Suc)

lemma tour_cost_ok:
  assumes sq: "square n cities" and len: "length ps = n" and small: "\<forall>v\<in>set ps. v < n"
  shows "\<exists>c. tour_cost n cities ps = Inr c"
proof -
  have "\<exists>s'. for_loop [0..<n]
       (\<lambda>j c. let next_city = (if j < n - 1 then j + 1 else 0) in
          if j < length ps \<and> next_city < length ps then
            (case cell cities (ps ! j) (ps ! next_city) of
               Inl e \<Rightarrow> Inl e
             | Inr w \<Rightarrow> Inr (int32 (c + w)))
          else Inl OutOfBounds) 0 = Inr s' \<and> True"
  proof (rule for_loop_rule[where P = "\<lambda>_ _. True"])
    show True ..
  next
    fix pre x post and s :: int
    assume "[0..<n] = pre @ x # post"
    then have "x \<in> set [0..<n]" by simp
    then have x: "x < n" by simp
    let ?next = "if x < n - 1 then x + 1 else 0"
    have nx: "?next < n" using x by auto
    have "ps ! x < n" "ps ! ?next < n"
      using small len x nx by (simp_all only: nth_mem)
    then have "cell cities (ps ! x) (ps ! ?next) = Inr (cities ! (ps ! x) ! (ps ! ?next))"
      by (rule cell_square[OF sq])
    then show "\<exists>s'. (let next_city = (if x < n - 1 then x + 1 else 0) in
          if x < length ps \<and> next_city < length ps then
            (case cell cities (ps ! x) (ps ! next_city) of
               Inl e \<Rightarrow> Inl e
             | Inr w \<Rightarrow> Inr (int32 (s + w)))
          else Inl OutOfBounds) = Inr s' \<and> True"
      using x nx len by (simp add: Let_def)
  qed
  then show ?thesis by (simp add: tour_cost_def)
qed

lemma perm_iteration_astep:
  assumes ok: "directions_ok xs" and st: "astep xs = Some ys"
    and sq: "square (Suc (length xs)) cities"
    and small: "\<forall>x\<in>set xs. fst x \<le> length xs"
  shows "\<exists>lm l r.
     (\<forall>lmi'. find_mobile (Suc (length xs)) (p_of xs) (d_of xs) lmi' = Inr (lm, Some (Suc l))) \<and>
     l < length xs \<and>
     0 \<le> int (Suc l) + d_of xs ! Suc l \<and> int (Suc l) + d_of xs ! Suc l \<le> int (length xs) \<and>
     perm_iteration (Suc (length xs)) cities
       \<lparr>p = p_of xs, d = d_of xs, res = r0, largestMobileIndex = lmi\<rparr>
     = Inr \<lparr>p = p_of ys, d = d_of ys, res = r, largestMobileIndex = Some (Suc l)\<rparr>"
proof -
  from st obtain lm l where scan: "ascan xs [0..<length xs] (0, None) = (lm, Some l)"
    and l: "l < length xs" and mob: "amob xs l"
    and left: "snd (xs ! l) = LEFT \<longrightarrow> ys = map (turn lm) (xs[l := xs ! (l - 1), l - 1 := xs ! l])"
    and right: "snd (xs ! l) \<noteq> LEFT \<longrightarrow> ys = map (turn lm) (xs[l := xs ! (l + 1), l + 1 := xs ! l])"
    by (rule astep_SomeD)
  define k where "k = (if snd (xs ! l) = LEFT then l - 1 else l + 1)"
  define zs where "zs = xs[l := xs ! k, k := xs ! l]"
  have ys: "ys = map (turn lm) zs"
    using left right by (simp add: zs_def k_def)
  have lz: "length zs = length xs" by (simp add: zs_def)
  have find: "find_mobile (Suc (length xs)) (p_of xs) (d_of xs) lmi' = Inr (lm, Some (Suc l))"
    for lmi'
    unfolding find_mobile_eq[OF ok] scan by (simp add: encode_def)
  have swap: "swap_mobile (p_of xs) (d_of xs) (Some (Suc l)) = Inr (p_of zs, d_of zs)"
    unfolding zs_def by (rule swap_mobile_eq[OF l mob k_def])
  have flip: "flip_directions (Suc (length xs)) (p_of zs) lm (d_of zs) = d_of ys"
    using flip_directions_eq[of zs lm] by (simp add: lz ys)
  have pz: "p_of zs = p_of ys" by (simp add: ys)
  have "\<forall>v\<in>set (p_of xs). v < Suc (length xs)"
    using small by (auto simp: p_of_def)
  then obtain c where c: "tour_cost (Suc (length xs)) cities (p_of xs) = Inr c"
    using tour_cost_ok[OF sq, of "p_of xs"] by auto
  have it: "perm_iteration (Suc (length xs)) cities
       \<lparr>p = p_of xs, d = d_of xs, res = r0, largestMobileIndex = lmi\<rparr>
     = Inr \<lparr>p = p_of ys, d = d_of ys, res = store_best (Suc (length xs)) c (p_of xs) r0,
            largestMobileIndex = Some (Suc l)\<rparr>"
    by (simp add: perm_iteration_def c find swap flip pz[symmetric] Let_def)
  have dl: "d_of xs ! Suc l = snd (xs ! l)" using l by simp
  have b1: "0 \<le> int (Suc l) + d_of xs ! Suc l"
    and b2: "int (Suc l) + d_of xs ! Suc l \<le> int (length xs)"
    unfolding dl using mob l by (auto simp: amob_def)
  show ?thesis
    using find l b1 b2 it by blast
qed

lemma enumerate_snoc:
  "enumerate n c (Suc k) s =
     (case enumerate n c k s of Inl e \<Rightarrow> Inl e | Inr s' \<Rightarrow> perm_iteration n c s')"
proof -
  have a: "[0..<Suc k] = [0..<k] @ [k]" by simp
  show ?thesis
    unfolding enumerate_def a for_loop_append
    by (simp split: sum.splits)
qed

lemma sjt_0: "sjt k 0 = map (\<lambda>v. (v, LEFT)) [1..<Suc k]"
proof (induction k)
  case 0
  then show ?case by simp
next
  case (Suc k)
  have "sjt (Suc k) 0 = insert_at (length (sjt k 0)) (Suc k, LEFT) (sjt k 0)"
    by simp
  also have "\<dots> = sjt k 0 @ [(Suc k, LEFT)]"
    by (rule insert_at_length)
  finally show ?case
    unfolding Suc.IH by simp
qed

lemma init_state_sjt:
  "init_state (Suc k) =
     \<lparr>p = p_of (sjt k 0), d = d_of (sjt k 0),
      res = \<lparr>cost = INFINITE, tour = replicate (Suc k + 1) None, tour_size = Suc k + 1\<rparr>,
      largestMobileIndex = None\<rparr>"
proof -
  have "p_of (sjt k 0) = [0..<Suc k]"
    unfolding sjt_0 p_of_def by (simp add: o_def upt_conv_Cons del: upt_Suc)
  moreover have "d_of (sjt k 0) = replicate (Suc k) LEFT"
    unfolding sjt_0 d_of_def by (simp add: o_def map_replicate_const del: upt_Suc)
  ultimately show ?thesis by (simp add: init_state_def)
qed

lemma directions_ok_sjt: "directions_ok (sjt k i)"
  unfolding directions_ok_def using sjt_dirs by blast

lemma enumerate_sjt:
  assumes sq: "square (Suc k) cities"
  shows "i < fact k \<Longrightarrow>
     \<exists>r lmi. enumerate (Suc k) cities i (init_state (Suc k))
       = Inr \<lparr>p = p_of (sjt k i), d = d_of (sjt k i), res = r, largestMobileIndex = lmi\<rparr>"
proof (induction i)
  case 0
  then show ?case by (simp add: init_state_sjt)
next
  case (Suc i)
  then obtain r lmi where e: "enumerate (Suc k) cities i (init_state (Suc k))
       = Inr \<lparr>p = p_of (sjt k i), d = d_of (sjt k i), res = r, largestMobileIndex = lmi\<rparr>"
    by auto
  have st: "astep (sjt k i) = Some (sjt k (Suc i))"
    using Suc.prems by (rule astep_sjt)
  have small: "\<forall>x\<in>set (sjt k i). fst x \<le> length (sjt k i)"
    using sjt_values by simp
  have sq': "square (Suc (length (sjt k i))) cities" using sq by simp
  from perm_iteration_astep[OF directions_ok_sjt st sq' small, of r lmi]
  obtain l r' where "perm_iteration (Suc k) cities
       \<lparr>p = p_of (sjt k i), d = d_of (sjt k i), res = r, largestMobileIndex = lmi\<rparr>
     = Inr \<lparr>p = p_of (sjt k (Suc i)), d = d_of (sjt k (Suc i)), res = r',
            largestMobileIndex = Some (Suc l)\<rparr>"
    by auto
  then show ?case
    unfolding enumerate_snoc e by simp
qed

lemma factorial_in_int32: "in_int32 (factorial n)"
proof -
  have "in_int32 a \<Longrightarrow> in_int32 (fold (\<lambda>i result. int32 (result * i)) xs a)" for xs a
    by (induction xs arbitrary: a) (simp_all add: in_int32_int32)
  then show ?thesis
    unfolding factorial_def by (simp add: in_int32_def)
qed

lemma factorial_Suc:
  "1 \<le> k \<Longrightarrow> factorial (int (Suc k)) = int32 (factorial (int k) * int (Suc k))"
proof -
  assume "1 \<le> k"
  then have "[2..int (Suc k)] = [2..int k] @ [int (Suc k)]"
    using upto_rec2[of 2 "int (Suc k)"] by simp
  then show ?thesis
    by (simp add: factorial_def)
qed

lemma fact_12: "fact 12 = (479001600 :: nat)"
  by (simp add: fact_numeral)

lemma fact_13: "fact 13 = (6227020800 :: nat)"
  by (simp add: fact_numeral)

text \<open>Up to 12 the product stays in range.\<close>

lemma factorial_fact: "k \<le> 12 \<Longrightarrow> factorial (int k) = int (fact k)"
proof (induction k)
  case 0
  then show ?case by (simp add: factorial_def)
next
  case (Suc k)
  show ?case
  proof (cases "k = 0")
    case True
    then show ?thesis by (simp add: factorial_def)
  next
    case False
    have "fact (Suc k) \<le> (fact 12 :: nat)"
      using Suc.prems by (rule fact_mono)
    then have "int (fact (Suc k)) \<le> 479001600"
      unfolding fact_12 by (simp only: of_nat_le_iff[symmetric, where 'a = int] of_nat_numeral)
    moreover have "0 \<le> int (fact (Suc k))" by simp
    ultimately have "in_int32 (int (fact (Suc k)))"
      unfolding in_int32_def by arith
    then have "int32 (int (fact (Suc k))) = int (fact (Suc k))"
      by (rule int32_id)
    moreover have "int (fact (Suc k)) = int (fact k) * int (Suc k)"
      by (simp add: algebra_simps)
    moreover have "factorial (int (Suc k)) = int32 (int (fact k) * int (Suc k))"
      using factorial_Suc[of k] Suc.IH Suc.prems False by simp
    ultimately show ?thesis by (simp only:)
  qed
qed

text \<open>The loop never runs more often than \<open>(n - 1)! / 2\<close> times.\<close>

lemma nr_perm_le: "nr_perm n \<le> fact (n - 1) div 2"
proof (cases "n = 0")
  case True
  then show ?thesis by simp
next
  case False
  then have eq: "int n - 1 = int (n - 1)" by simp
  show ?thesis
  proof (cases "n - 1 \<le> 12")
    case True
    have "nr_perm n = nat (int (fact (n - 1)) div 2)"
      unfolding nr_perm_def eq factorial_fact[OF True] by (rule refl)
    also have "int (fact (n - 1)) div 2 = int (fact (n - 1) div 2)"
      by (simp add: zdiv_int)
    finally show ?thesis by (simp only: nat_int order_refl)
  next
    case False
    then have "fact 13 \<le> (fact (n - 1) :: nat)"
      by (intro fact_mono) simp
    then have big: "(6227020800 :: nat) \<le> fact (n - 1)"
      unfolding fact_13 .
    have "factorial (int n - 1) < 2147483648"
      using factorial_in_int32[of "int n - 1"] by (simp add: in_int32_def)
    then have "nr_perm n \<le> 1073741824"
      unfolding nr_perm_def by simp
    with big show ?thesis by simp
  qed
qed

lemma nr_perm_eq: "0 < n \<Longrightarrow> n \<le> 13 \<Longrightarrow> nr_perm n = fact (n - 1) div 2"
proof -
  assume "0 < n" "n \<le> 13"
  then have eq: "int n - 1 = int (n - 1)" and le: "n - 1 \<le> 12" by simp_all
  have "nr_perm n = nat (int (fact (n - 1)) div 2)"
    unfolding nr_perm_def eq factorial_fact[OF le] by (rule refl)
  also have "int (fact (n - 1)) div 2 = int (fact (n - 1) div 2)"
    by (simp add: zdiv_int)
  finally show ?thesis by (simp only: nat_int)
qed

text \<open>
  C10.  Let \<open>n \<ge> 3\<close> and the matrix be \<open>n \<times> n\<close>.  The enumeration loop runs at most
  \<open>(n - 1)! / 2\<close> times (exactly so often as long as the 32-bit factorial has not
  wrapped round), and every iteration \<open>i\<close> of the \<open>(n - 1)! / 2\<close> iterations is reached
  without an error, in a state \<open>s\<close> whose arrays \<^verbatim>\<open>p\<close> and \<^verbatim>\<open>d\<close> have \<open>n\<close> cells.  There the search sets
  \<^verbatim>\<open>largestMobileIndex\<close> to an index \<open>j\<close>, whatever the variable held before (also
  when it held no value), with \<open>1 \<le> j \<le> n - 1\<close> and \<open>0 \<le> j + d[j] \<le> n - 1\<close>, and the
  iteration with its two swaps ends without an error, leaving \<open>j\<close> in the variable.
\<close>

theorem mobile_always_found:
  assumes n: "3 \<le> n" and sq: "square n cities" and i: "i < fact (n - 1) div 2"
  shows "nr_perm n \<le> fact (n - 1) div 2 \<and>
    (\<exists>s lm j s'.
     enumerate n cities i (init_state n) = Inr s \<and>
     length (p s) = n \<and> length (d s) = n \<and>
     (\<forall>lmi. find_mobile n (p s) (d s) lmi = Inr (lm, Some j)) \<and>
     1 \<le> j \<and> j \<le> n - 1 \<and>
     0 \<le> int j + d s ! j \<and> int j + d s ! j \<le> int n - 1 \<and>
     perm_iteration n cities s = Inr s' \<and> largestMobileIndex s' = Some j)"
proof -
  obtain k where k: "n = Suc k" using n by (cases n) auto
  have "i < fact k div 2" using i k by simp
  then have lt: "Suc i < fact k" by arith
  then have lt': "i < fact k" by simp
  from enumerate_sjt[OF sq[unfolded k] lt'] obtain r lmi where
    e: "enumerate (Suc k) cities i (init_state (Suc k))
       = Inr \<lparr>p = p_of (sjt k i), d = d_of (sjt k i), res = r, largestMobileIndex = lmi\<rparr>"
    by auto
  let ?s = "\<lparr>p = p_of (sjt k i), d = d_of (sjt k i), res = r, largestMobileIndex = lmi\<rparr>"
  have st: "astep (sjt k i) = Some (sjt k (Suc i))"
    using lt by (rule astep_sjt)
  have small: "\<forall>x\<in>set (sjt k i). fst x \<le> length (sjt k i)"
    using sjt_values by simp
  have sq': "square (Suc (length (sjt k i))) cities" using sq k by simp
  from perm_iteration_astep[OF directions_ok_sjt st sq' small, of r lmi]
  obtain lm l r' where
    f: "\<forall>lmi'. find_mobile (Suc k) (p_of (sjt k i)) (d_of (sjt k i)) lmi' = Inr (lm, Some (Suc l))"
    and l: "l < k"
    and b: "0 \<le> int (Suc l) + d_of (sjt k i) ! Suc l" "int (Suc l) + d_of (sjt k i) ! Suc l \<le> int k"
    and it: "perm_iteration (Suc k) cities ?s
       = Inr \<lparr>p = p_of (sjt k (Suc i)), d = d_of (sjt k (Suc i)), res = r',
            largestMobileIndex = Some (Suc l)\<rparr>"
    by auto
  let ?s' = "\<lparr>p = p_of (sjt k (Suc i)), d = d_of (sjt k (Suc i)), res = r',
            largestMobileIndex = Some (Suc l)\<rparr>"
  have "enumerate n cities i (init_state n) = Inr ?s \<and>
     length (p ?s) = n \<and> length (d ?s) = n \<and>
     (\<forall>lmi. find_mobile n (p ?s) (d ?s) lmi = Inr (lm, Some (Suc l))) \<and>
     1 \<le> Suc l \<and> Suc l \<le> n - 1 \<and>
     0 \<le> int (Suc l) + d ?s ! Suc l \<and> int (Suc l) + d ?s ! Suc l \<le> int n - 1 \<and>
     perm_iteration n cities ?s = Inr ?s' \<and> largestMobileIndex ?s' = Some (Suc l)"
    using e f l b it unfolding k by simp
  then have "\<exists>s lm j s'.
     enumerate n cities i (init_state n) = Inr s \<and>
     length (p s) = n \<and> length (d s) = n \<and>
     (\<forall>lmi. find_mobile n (p s) (d s) lmi = Inr (lm, Some j)) \<and>
     1 \<le> j \<and> j \<le> n - 1 \<and>
     0 \<le> int j + d s ! j \<and> int j + d s ! j \<le> int n - 1 \<and>
     perm_iteration n cities s = Inr s' \<and> largestMobileIndex s' = Some j"
    by blast
  with nr_perm_le[of n] show ?thesis by (rule conjI)
qed

theorem mobile_always_found_witness:
  "3 \<le> (4::nat) \<and> square 4 example4 \<and> (2::nat) < fact (4 - 1) div 2 \<and> nr_perm 4 = 3 \<and>
   nr_perm 4 \<le> fact (4 - 1) div 2 \<and>
   (\<exists>s lm j s'.
     enumerate 4 example4 2 (init_state 4) = Inr s \<and>
     length (p s) = 4 \<and> length (d s) = 4 \<and>
     (\<forall>lmi. find_mobile 4 (p s) (d s) lmi = Inr (lm, Some j)) \<and>
     1 \<le> j \<and> j \<le> 4 - 1 \<and>
     0 \<le> int j + d s ! j \<and> int j + d s ! j \<le> int 4 - 1 \<and>
     perm_iteration 4 example4 s = Inr s' \<and> largestMobileIndex s' = Some j)"
proof -
  have n: "3 \<le> (4::nat)" by simp
  have sq: "square 4 example4" by (simp add: square_def example4_def)
  have i: "(2::nat) < fact (4 - 1) div 2" by (simp add: fact_numeral)
  have c: "nr_perm 4 = 3" by code_simp
  from mobile_always_found[OF n sq i] show ?thesis
    by (intro conjI n sq i c) simp_all
qed

end
